theory Spec2Isabelle
  imports Main "HOL-Library.AList" "HOL-Library.Sublist" "HOL-Library.Multiset"
begin

section \<open>Text\<close>

text \<open>
  Python \<open>str\<close> values are modelled as \<^typ>\<open>string\<close>. A \<^typ>\<open>char\<close> is one of the 256
  code points below U+0100, so every statement below is about texts over that range;
  the character classes and case mappings are the ones Python applies to these code
  points.
\<close>

abbreviation NL :: char where
  "NL \<equiv> CHR 0x0A"

definition isspace :: "char \<Rightarrow> bool" where
  \<comment> \<open>\<open>str.isspace\<close>, also the class \<open>\s\<close> of \<open>re\<close> on \<open>str\<close> patterns and what
      \<open>str.strip()\<close> removes\<close>
  "isspace c =
     (let n = (of_char c :: nat)
      in (9 \<le> n \<and> n \<le> 13) \<or> (28 \<le> n \<and> n \<le> 32) \<or> n = 133 \<or> n = 160)"

fun set_bit5 :: "char \<Rightarrow> char" where
  "set_bit5 (Char b0 b1 b2 b3 b4 b5 b6 b7) = Char b0 b1 b2 b3 b4 True b6 b7"

fun clear_bit5 :: "char \<Rightarrow> char" where
  "clear_bit5 (Char b0 b1 b2 b3 b4 b5 b6 b7) = Char b0 b1 b2 b3 b4 False b6 b7"

definition py_lower :: "char \<Rightarrow> char" where
  \<comment> \<open>the simple lower-case mapping \<open>re.IGNORECASE\<close> compares with: A..Z and the
      capital letters U+00C0..U+00DE (without the multiplication sign) gain 0x20\<close>
  "py_lower c =
     (let n = (of_char c :: nat)
      in if (65 \<le> n \<and> n \<le> 90) \<or> (192 \<le> n \<and> n \<le> 222 \<and> n \<noteq> 215)
         then set_bit5 c else c)"

definition upper_char :: "char \<Rightarrow> nat list" where
  \<comment> \<open>\<open>str.upper()\<close> of one character, as code points: three characters of the range
      leave it (the micro sign, sharp s, y with diaeresis)\<close>
  "upper_char c =
     (let n = (of_char c :: nat)
      in if 97 \<le> n \<and> n \<le> 122 then [of_char (clear_bit5 c)]
         else if n = 181 then [924]
         else if n = 223 then [83, 83]
         else if n = 255 then [376]
         else if 224 \<le> n \<and> n \<le> 254 \<and> n \<noteq> 247 then [of_char (clear_bit5 c)]
         else [n])"

definition py_upper :: "string \<Rightarrow> nat list" where
  "py_upper s = concat (map upper_char s)"

definition code_points :: "string \<Rightarrow> nat list" where
  "code_points s = map of_char s"

definition strip :: "string \<Rightarrow> string" where
  \<comment> \<open>\<open>str.strip()\<close>\<close>
  "strip s = rev (dropWhile isspace (rev (dropWhile isspace s)))"

fun split_nl :: "string \<Rightarrow> string list" where
  \<comment> \<open>\<open>s.split('\n')\<close>: never empty\<close>
  "split_nl [] = [[]]"
| "split_nl (c # cs) =
     (if c = NL then [] # split_nl cs
      else (case split_nl cs of [] \<Rightarrow> [[c]] | l # ls \<Rightarrow> (c # l) # ls))"

fun join :: "string \<Rightarrow> string list \<Rightarrow> string" where
  \<comment> \<open>\<open>sep.join(xs)\<close>\<close>
  "join sep [] = []"
| "join sep [x] = x"
| "join sep (x # y # ys) = x @ sep @ join sep (y # ys)"

fun match_lit_ci :: "string \<Rightarrow> string \<Rightarrow> string option" where
  \<comment> \<open>a literal of a pattern compiled with \<open>re.IGNORECASE\<close>, matched at the start of
      the text: the rest of the text behind the match, or \<open>None\<close>\<close>
  "match_lit_ci [] t = Some t"
| "match_lit_ci (p # ps) [] = None"
| "match_lit_ci (p # ps) (c # cs) =
     (if py_lower c = py_lower p then match_lit_ci ps cs else None)"

fun re_search :: "(string \<Rightarrow> bool) \<Rightarrow> string \<Rightarrow> bool" where
  \<comment> \<open>\<open>re.search\<close> as a truth value: the pattern matches at some position, the end
      of the text included\<close>
  "re_search P [] = P []"
| "re_search P (c # cs) = (P (c # cs) \<or> re_search P cs)"

definition ci_eq :: "string \<Rightarrow> string \<Rightarrow> bool" where
  "ci_eq u p = (map py_lower u = map py_lower p)"

section \<open>Tag detection (utils.py)\<close>

definition tag_at :: "string \<Rightarrow> string \<Rightarrow> bool" where
  \<comment> \<open>the pattern \<open><tag\s*/>|<tag>\<close> at the start of the text. The tag is matched as a
      literal, which is what the interpolated pattern does for a tag free of
      metacharacters, as the one tag the workflow passes is. Behind the greedy \<open>\s*\<close>
      only \<open>/>\<close> can follow, and \<open>/\<close> is no white space, so giving back white space
      never helps.\<close>
  "tag_at tag t =
     (case match_lit_ci (''<'' @ tag) t of
        None \<Rightarrow> False
      | Some r \<Rightarrow> match_lit_ci ''/>'' (dropWhile isspace r) \<noteq> None
                 \<or> match_lit_ci ''>'' r \<noteq> None)"

definition check_tag_presence :: "string \<Rightarrow> string \<Rightarrow> bool" where
  "check_tag_presence text tag = re_search (tag_at tag) text"

section \<open>Session state\<close>

text \<open>
  The session state is a Python \<open>dict\<close> from keys to texts. It is an association list
  in insertion order; \<^const>\<open>AList.update\<close> is the assignment \<open>state[k] = v\<close>: the value
  of a present key is replaced in place, a new key goes to the end.
\<close>

type_synonym state = "(string \<times> string) list"

definition state_get :: "state \<Rightarrow> string \<Rightarrow> string \<Rightarrow> string" where
  \<comment> \<open>\<open>state.get(k, d)\<close>\<close>
  "state_get s k d = (case map_of s k of None \<Rightarrow> d | Some v \<Rightarrow> v)"

definition apply_state_delta :: "(string \<times> string) list \<Rightarrow> state \<Rightarrow> state" where
  \<comment> \<open>committing the \<open>state_delta\<close> of an event\<close>
  "apply_state_delta d s = fold (\<lambda>(k, v). AList.update k v) d s"

section \<open>The workflow agents (group_chat.py)\<close>

definition check_consensus :: "state \<Rightarrow> bool" where
  \<comment> \<open>\<open>_CheckConsensusAndEscalate\<close>: the \<open>escalate\<close> flag of the event it yields\<close>
  "check_consensus s =
     check_tag_presence (state_get s ''Coordinator_message'' '''') ''consensus_reached''"

definition name_of_key :: "string \<Rightarrow> string option" where
  \<comment> \<open>\<open>name_pattern.match(k)\<close> for \<open>^(?P<name>.+)_message$\<close>: the group \<open>name\<close>, or
      \<open>None\<close>. The dot matches no line feed, and \<open>$\<close> also matches before a line
      feed that ends the key.\<close>
  "name_of_key k =
     (let k' = (if k \<noteq> [] \<and> last k = NL then butlast k else k);
          n = take (length k' - 8) k'
      in if 8 < length k' \<and> drop (length k' - 8) k' = ''_message'' \<and> NL \<notin> set n
         then Some n else None)"

definition new_messages :: "state \<Rightarrow> (string \<times> string) list" where
  \<comment> \<open>the dict comprehension over \<open>state.items()\<close>: a name met again keeps its place
      and takes the later value\<close>
  "new_messages s =
     fold (\<lambda>(k, v) d. case name_of_key k of None \<Rightarrow> d | Some n \<Rightarrow> AList.update n v d) s []"

definition format_entry :: "string \<times> string \<Rightarrow> string" where
  "format_entry e = ''['' @ fst e @ '']: '' @ snd e @ [NL]"

definition round_text :: "state \<Rightarrow> string" where
  "round_text s = join [NL] (map format_entry (new_messages s))"

definition updated_chat_history :: "state \<Rightarrow> string" where
  "updated_chat_history s = state_get s ''chat_history'' '''' @ [NL] @ round_text s"

definition update_chat_history_delta :: "state \<Rightarrow> (string \<times> string) list" where
  \<comment> \<open>\<open>_UpdateChatHistory\<close>: the \<open>state_delta\<close> of the event it yields\<close>
  "update_chat_history_delta s = [(''chat_history'', updated_chat_history s)]"

definition update_chat_history :: "state \<Rightarrow> state" where
  "update_chat_history s = apply_state_delta (update_chat_history_delta s) s"

section \<open>Agents and the round loop\<close>

text \<open>
  Modelled from the spec: the agent classes of the hosting framework (\<open>BaseAgent\<close>,
  \<open>ParallelAgent\<close>, \<open>LoopAgent\<close>) are not part of the repository. Following sections 3,
  4.1 to 4.3 and 4.6 of the specification, an agent has an identity and produces at
  most one message per round, which is stored under the key \<open><identity>_message\<close>; an
  agent that fails or has no content in a round leaves its slot as it was. What an
  agent writes is opaque, so a run fixes it round by round: \<open>respond a i\<close> is the
  message of agent \<open>a\<close> in round \<open>i\<close>. Runs in which a step raises are not part of the
  model.
\<close>

record agent =
  identity :: string
  respond :: "nat \<Rightarrow> string option"

definition output_key :: "agent \<Rightarrow> string" where
  "output_key a = identity a @ ''_message''"

definition agent_step :: "agent \<Rightarrow> nat \<Rightarrow> state \<Rightarrow> state" where
  "agent_step a i s =
     (case respond a i of None \<Rightarrow> s | Some m \<Rightarrow> apply_state_delta [(output_key a, m)] s)"

text \<open>
  \<open>get_group_chat_agent\<close> builds the loop from the coordinator, the participants and the
  bound; \<open>name\<close> and \<open>description\<close> have no effect on a run.
\<close>

record group_chat =
  coordinator_agent :: agent
  group_agents :: "agent list"
  max_iterations :: nat

definition working_group :: "group_chat \<Rightarrow> nat \<Rightarrow> state \<Rightarrow> state" where
  \<comment> \<open>the parallel fan-out; the participants' messages are committed in list order\<close>
  "working_group g i s = fold (\<lambda>a. agent_step a i) (group_agents g) s"

definition coordinator_step :: "group_chat \<Rightarrow> nat \<Rightarrow> state \<Rightarrow> state" where
  "coordinator_step g i s = agent_step (coordinator_agent g) i s"

definition run_round :: "group_chat \<Rightarrow> nat \<Rightarrow> state \<Rightarrow> state" where
  \<comment> \<open>the sub-agents of the loop in their order; the consensus check changes no state\<close>
  "run_round g i s = update_chat_history (coordinator_step g i (working_group g i s))"

datatype terminal = CONSENSUS_REACHED | EXHAUSTED

record outcome =
  final :: terminal
  rounds :: nat
  session :: state

text \<open>
  Modelled from the spec: the state machine of section 4.6. From \<open>RUNNING(i)\<close> the round
  is executed; if the consensus check yields true the loop ends in
  \<open>CONSENSUS_REACHED\<close>, else if \<open>i + 1 = max_iterations\<close> it ends in \<open>EXHAUSTED\<close>, else
  it goes on with \<open>RUNNING(i+1)\<close>. A run that never reaches a terminal state is \<open>None\<close>.
\<close>

partial_function (option) round_controller ::
  "group_chat \<Rightarrow> nat \<Rightarrow> state \<Rightarrow> outcome option" where
  "round_controller g i s =
     (let s' = run_round g i s
      in if check_consensus s'
         then Some \<lparr>final = CONSENSUS_REACHED, rounds = Suc i, session = s'\<rparr>
         else if Suc i = max_iterations g
         then Some \<lparr>final = EXHAUSTED, rounds = Suc i, session = s'\<rparr>
         else round_controller g (Suc i) s')"

declare round_controller.simps [code]

definition run_group_chat :: "group_chat \<Rightarrow> state \<Rightarrow> outcome option" where
  "run_group_chat g s = round_controller g 0 s"

fun rounds_from :: "group_chat \<Rightarrow> nat \<Rightarrow> nat \<Rightarrow> state \<Rightarrow> state" where
  \<comment> \<open>the session after \<open>n\<close> rounds that start with round \<open>i\<close>\<close>
  "rounds_from g i 0 s = s"
| "rounds_from g i (Suc n) s = rounds_from g (Suc i) n (run_round g i s)"

definition session_after :: "group_chat \<Rightarrow> nat \<Rightarrow> state \<Rightarrow> state" where
  \<comment> \<open>the session after the first \<open>n\<close> rounds of a run from \<open>s\<close>\<close>
  "session_after g n s = rounds_from g 0 n s"

definition before_update :: "group_chat \<Rightarrow> nat \<Rightarrow> state \<Rightarrow> state" where
  \<comment> \<open>the session the transcript updater of round \<open>i\<close> reads\<close>
  "before_update g i s = coordinator_step g i (working_group g i (session_after g i s))"

definition coordinator_message :: "state \<Rightarrow> string" where
  \<comment> \<open>the text the consensus check reads\<close>
  "coordinator_message s = state_get s ''Coordinator_message'' ''''"

definition chat_history :: "state \<Rightarrow> string" where
  "chat_history s = state_get s ''chat_history'' ''''"

definition produced :: "group_chat \<Rightarrow> nat \<Rightarrow> (string \<times> string) list" where
  \<comment> \<open>the \<open>{identity: message}\<close> pairs produced in round \<open>i\<close>\<close>
  "produced g i =
     concat (map (\<lambda>a. case respond a i of None \<Rightarrow> [] | Some m \<Rightarrow> [(identity a, m)])
                 (group_agents g @ [coordinator_agent g]))"

section \<open>The marker as the specification words it\<close>

definition contains_ci :: "string \<Rightarrow> string \<Rightarrow> bool" where
  "contains_ci p t = re_search (\<lambda>u. match_lit_ci p u \<noteq> None) t"

definition spec_marker_present :: "string \<Rightarrow> bool" where
  \<comment> \<open>the marker as the specification describes it: the self-closing form, or the
      opening tag with its closing tag behind it, in any casing\<close>
  "spec_marker_present t =
     (contains_ci ''<consensus_reached/>'' t
      \<or> re_search (\<lambda>u. case match_lit_ci ''<consensus_reached>'' u of
                          None \<Rightarrow> False
                        | Some r \<Rightarrow> contains_ci ''</consensus_reached>'' r) t)"

section \<open>The final answer (gaia_benchmark.py)\<close>

fun search_final_answer :: "string \<Rightarrow> string option" where
  \<comment> \<open>\<open>re.search(r'FINAL ANSWER:\s*(.*?)(?:\n|$)', response, re.IGNORECASE | re.DOTALL)\<close>:
      group 1 of the leftmost match, or \<open>None\<close>. Behind the prefix the greedy \<open>\s*\<close>
      takes all white space, line feeds too; the lazy group then stops at the first
      line feed or at the end of the text, so the rest of the pattern always matches.\<close>
  "search_final_answer [] = None"
| "search_final_answer (c # cs) =
     (case match_lit_ci ''FINAL ANSWER:'' (c # cs) of
        Some r \<Rightarrow> Some (takeWhile (\<lambda>x. x \<noteq> NL) (dropWhile isspace r))
      | None \<Rightarrow> search_final_answer cs)"

definition extract_final_answer :: "string \<Rightarrow> string option" where
  "extract_final_answer response =
     (case search_final_answer response of
        Some g \<Rightarrow> Some (strip g)
      | None \<Rightarrow>
          (let lines = split_nl (strip response)
           in if 1 < length lines
                 \<and> py_upper (strip (lines ! (length lines - 2))) = code_points ''FINAL ANSWER:''
              then Some (strip (last lines))
              else if length lines = 1 then Some (strip (hd lines))
              else None))"

definition model_answer :: "string \<Rightarrow> string" where
  \<comment> \<open>the \<open>model_answer\<close> field of the result record that \<open>evaluate_gaia_benchmark\<close>
      builds from the final response text; \<open>not final_answer\<close> holds for \<open>None\<close> and
      for the empty text\<close>
  "model_answer response =
     (case extract_final_answer response of
        None \<Rightarrow> ''NO_FINAL_ANSWER_FOUND''
      | Some a \<Rightarrow> if a = [] then ''NO_FINAL_ANSWER_FOUND'' else a)"

definition spec_final_answer_line :: "string \<Rightarrow> string option" where
  \<comment> \<open>the final-answer line as the specification words it: the first line that begins
      with the prefix, in any casing, gives the stripped remainder of that line\<close>
  "spec_final_answer_line response =
     (case filter (\<lambda>l. match_lit_ci ''FINAL ANSWER:'' l \<noteq> None) (split_nl response) of
        [] \<Rightarrow> None
      | l # _ \<Rightarrow> map_option strip (match_lit_ci ''FINAL ANSWER:'' l))"

definition first_occurrence :: "string \<Rightarrow> string \<Rightarrow> nat \<Rightarrow> bool" where
  \<comment> \<open>position \<open>n\<close> is the leftmost one at which the literal matches, in any casing\<close>
  "first_occurrence p t n =
     (list_all (\<lambda>k. match_lit_ci p (drop k t) = None) [0..<n]
      \<and> match_lit_ci p (drop n t) \<noteq> None)"

section \<open>Archive extraction (unzip.py)\<close>

text \<open>
  The tool talks to the operating system through \<open>os\<close>, \<open>pathlib\<close>, \<open>shutil\<close> and the
  archive modules. These calls are parameters of the model: a record of operations
  over a state \<open>'w\<close> of the outside world. A query returns its value or the exception it
  raises; an operation that changes the file system returns the exception it raised, if
  any, and the world it leaves. Paths are texts.
\<close>

datatype py_exception =
    OSError string
  | BadZipFile string
  | TarError string
  | EOFError string
  | BadGzipFile string
  | LZMAError string
  | OtherException string

fun exc_text :: "py_exception \<Rightarrow> string" where
  \<comment> \<open>\<open>str(e)\<close>\<close>
  "exc_text (OSError m) = m"
| "exc_text (BadZipFile m) = m"
| "exc_text (TarError m) = m"
| "exc_text (EOFError m) = m"
| "exc_text (BadGzipFile m) = m"
| "exc_text (LZMAError m) = m"
| "exc_text (OtherException m) = m"

fun is_archive_error :: "py_exception \<Rightarrow> bool" where
  \<comment> \<open>the classes of the first handler of \<open>_extract_archive\<close>\<close>
  "is_archive_error (BadZipFile m) = True"
| "is_archive_error (TarError m) = True"
| "is_archive_error (EOFError m) = True"
| "is_archive_error (BadGzipFile m) = True"
| "is_archive_error (LZMAError m) = True"
| "is_archive_error e = False"

fun is_os_error :: "py_exception \<Rightarrow> bool" where
  \<comment> \<open>\<open>except OSError\<close>; \<open>gzip.BadGzipFile\<close> is a subclass of \<open>OSError\<close>\<close>
  "is_os_error (OSError m) = True"
| "is_os_error (BadGzipFile m) = True"
| "is_os_error e = False"

record file_info =
  fi_path :: string
  fi_type :: string
  fi_size :: nat

datatype dict_value = Text string | Items "file_info list"

type_synonym result_dict = "(string \<times> dict_value) list"

record 'w os =
  environ_get :: "'w \<Rightarrow> string \<Rightarrow> string option"
  resolve :: "'w \<Rightarrow> string \<Rightarrow> py_exception + string"
  path_exists :: "'w \<Rightarrow> string \<Rightarrow> py_exception + bool"
  is_file :: "'w \<Rightarrow> string \<Rightarrow> py_exception + bool"
  is_dir :: "'w \<Rightarrow> string \<Rightarrow> py_exception + bool"
  stat_size :: "'w \<Rightarrow> string \<Rightarrow> py_exception + nat"
  any_iterdir :: "'w \<Rightarrow> string \<Rightarrow> py_exception + bool"
  rglob :: "'w \<Rightarrow> string \<Rightarrow> string list \<times> py_exception option"
  path_stem :: "string \<Rightarrow> string"
  path_join :: "string \<Rightarrow> string \<Rightarrow> string"
  mkdir_parents :: "'w \<Rightarrow> string \<Rightarrow> py_exception option \<times> 'w"
  rmtree :: "'w \<Rightarrow> string \<Rightarrow> py_exception option \<times> 'w"
  is_zipfile :: "'w \<Rightarrow> string \<Rightarrow> py_exception + bool"
  is_tarfile :: "'w \<Rightarrow> string \<Rightarrow> py_exception + bool"
  zip_extractall :: "'w \<Rightarrow> string \<Rightarrow> string \<Rightarrow> py_exception option \<times> 'w"
  tar_extractall :: "'w \<Rightarrow> string \<Rightarrow> string \<Rightarrow> py_exception option \<times> 'w"
  gzip_copy :: "'w \<Rightarrow> string \<Rightarrow> string \<Rightarrow> py_exception option \<times> 'w"
  bz2_copy :: "'w \<Rightarrow> string \<Rightarrow> string \<Rightarrow> py_exception option \<times> 'w"
  lzma_copy :: "'w \<Rightarrow> string \<Rightarrow> string \<Rightarrow> py_exception option \<times> 'w"

function str_nat :: "nat \<Rightarrow> string" where
  \<comment> \<open>\<open>str(n)\<close> of a length\<close>
  "str_nat n =
     (if n < 10 then [''0123456789'' ! n]
      else str_nat (n div 10) @ [''0123456789'' ! (n mod 10)])"
  by pat_completeness auto
termination
  by (relation "measure id") auto

definition endswith :: "string \<Rightarrow> string \<Rightarrow> bool" where
  "endswith s sfx = suffix sfx s"

definition item_info :: "'w os \<Rightarrow> 'w \<Rightarrow> string \<Rightarrow> file_info option" where
  \<comment> \<open>the body of the loop of \<open>_get_file_list\<close>: an item whose inspection raises is
      left out\<close>
  "item_info sys w p =
     (case is_dir sys w p of
        Inl e \<Rightarrow> None
      | Inr d \<Rightarrow>
          (case is_file sys w p of
             Inl e \<Rightarrow> None
           | Inr f \<Rightarrow>
               (case (if f then stat_size sys w p else Inr 0) of
                  Inl e \<Rightarrow> None
                | Inr sz \<Rightarrow>
                    (case resolve sys w p of
                       Inl e \<Rightarrow> None
                     | Inr a \<Rightarrow>
                         Some \<lparr>fi_path = a,
                               fi_type = (if d then ''directory'' else ''file''),
                               fi_size = sz\<rparr>))))"

definition get_file_list :: "'w os \<Rightarrow> 'w \<Rightarrow> string \<Rightarrow> file_info list" where
  \<comment> \<open>\<open>_get_file_list\<close>: the items the scan yields before it fails, if it fails\<close>
  "get_file_list sys w directory =
     concat (map (\<lambda>p. case item_info sys w p of None \<Rightarrow> [] | Some fi \<Rightarrow> [fi])
                 (fst (rglob sys w directory)))"

definition handle_archive_exception :: "py_exception \<Rightarrow> bool \<times> string option" where
  \<comment> \<open>the two handlers of the outer \<open>try\<close> of \<open>_extract_archive\<close>\<close>
  "handle_archive_exception e =
     (if is_archive_error e
      then (False, Some (''Extraction failed due to archive error: '' @ exc_text e))
      else (False, Some (''Extraction failed due to unexpected error: '' @ exc_text e)))"

definition finish_extraction ::
  "py_exception option \<times> 'w \<Rightarrow> (bool \<times> string option) \<times> 'w" where
  "finish_extraction r =
     (case fst r of
        None \<Rightarrow> ((True, None), snd r)
      | Some e \<Rightarrow> (handle_archive_exception e, snd r))"

definition extract_archive ::
  "'w os \<Rightarrow> 'w \<Rightarrow> string \<Rightarrow> string \<Rightarrow> (bool \<times> string option) \<times> 'w" where
  \<comment> \<open>\<open>_extract_archive\<close>\<close>
  "extract_archive sys w archive_path extract_to =
     (let archive_path_lower = map py_lower archive_path;
          output_path = path_join sys extract_to (path_stem sys archive_path)
      in case is_zipfile sys w archive_path of
           Inl e \<Rightarrow> (handle_archive_exception e, w)
         | Inr True \<Rightarrow> finish_extraction (zip_extractall sys w archive_path extract_to)
         | Inr False \<Rightarrow>
             (case is_tarfile sys w archive_path of
                Inl e \<Rightarrow> (handle_archive_exception e, w)
              | Inr True \<Rightarrow> finish_extraction (tar_extractall sys w archive_path extract_to)
              | Inr False \<Rightarrow>
                  if endswith archive_path_lower ''.gz''
                     \<and> \<not> endswith archive_path_lower ''.tar.gz''
                  then finish_extraction (gzip_copy sys w archive_path output_path)
                  else if endswith archive_path_lower ''.bz2''
                     \<and> \<not> endswith archive_path_lower ''.tar.bz2''
                  then finish_extraction (bz2_copy sys w archive_path output_path)
                  else if endswith archive_path_lower ''.xz''
                     \<and> \<not> endswith archive_path_lower ''.tar.xz''
                  then finish_extraction (lzma_copy sys w archive_path output_path)
                  else
                    (case tar_extractall sys w archive_path extract_to of
                       (None, w') \<Rightarrow> ((True, None), w')
                     | (Some (TarError m), w') \<Rightarrow>
                         ((False, Some (''Unsupported or corrupted archive format: ''
                                         @ archive_path)), w')
                     | (Some e, w') \<Rightarrow>
                         ((False, Some (''Extraction failed during fallback attempt: ''
                                         @ exc_text e)), w'))))"

definition error_dict :: "string \<Rightarrow> result_dict" where
  \<comment> \<open>the shape of every error return of \<open>unzip_file\<close>\<close>
  "error_dict msg =
     [(''status'', Text ''error''), (''extracted_files'', Items []), (''message'', Text msg)]"

definition format_optional :: "string option \<Rightarrow> string" where
  \<comment> \<open>an \<open>Optional[str]\<close> inside an f-string\<close>
  "format_optional m = (case m of None \<Rightarrow> ''None'' | Some t \<Rightarrow> t)"

definition cleanup :: "'w os \<Rightarrow> 'w \<Rightarrow> string \<Rightarrow> 'w" where
  \<comment> \<open>the \<open>try\<close> around \<open>shutil.rmtree\<close>: whatever it raises is only printed\<close>
  "cleanup sys w extract_dir =
     (case path_exists sys w extract_dir of
        Inr True \<Rightarrow> snd (rmtree sys w extract_dir)
      | _ \<Rightarrow> w)"

definition extract_into ::
  "'w os \<Rightarrow> 'w \<Rightarrow> string \<Rightarrow> string \<Rightarrow> string \<Rightarrow> (py_exception + result_dict) \<times> 'w" where
  \<comment> \<open>\<open>unzip_file\<close> from the creation of the extraction directory on\<close>
  "extract_into sys w file_path p_file_path extract_dir =
     (case mkdir_parents sys w extract_dir of
        (Some e, w1) \<Rightarrow>
          if is_os_error e
          then (Inr (error_dict (''Error creating extraction directory '' @ [CHR 0x27]
                                  @ extract_dir @ [CHR 0x27] @ '': '' @ exc_text e)), w1)
          else (Inl e, w1)
      | (None, w1) \<Rightarrow>
          (case extract_archive sys w1 p_file_path extract_dir of
             ((False, error), w2) \<Rightarrow>
               (Inr (error_dict (''Failed to extract '' @ file_path @ '': ''
                                  @ format_optional error)),
                cleanup sys w2 extract_dir)
           | ((True, error), w2) \<Rightarrow>
               (let extracted_files_list = get_file_list sys w2 extract_dir
                in (Inr [(''status'', Text ''success''),
                         (''extract_dir'', Text extract_dir),
                         (''extracted_files'', Items extracted_files_list),
                         (''message'', Text (''Successfully extracted '' @ file_path @ '' to ''
                            @ extract_dir @ ''. Found ''
                            @ str_nat (length extracted_files_list) @ '' items.''))],
                    w2))))"

definition already_extracted ::
  "'w os \<Rightarrow> 'w \<Rightarrow> string \<Rightarrow> py_exception + bool" where
  \<comment> \<open>\<open>extract_dir.exists() and extract_dir.is_dir()\<close> and then
      \<open>any(extract_dir.iterdir())\<close>; none of the three calls is inside a \<open>try\<close>\<close>
  "already_extracted sys w extract_dir =
     (case path_exists sys w extract_dir of
        Inl e \<Rightarrow> Inl e
      | Inr False \<Rightarrow> Inr False
      | Inr True \<Rightarrow>
          (case is_dir sys w extract_dir of
             Inl e \<Rightarrow> Inl e
           | Inr False \<Rightarrow> Inr False
           | Inr True \<Rightarrow> any_iterdir sys w extract_dir))"

definition extraction_directory :: "'w os \<Rightarrow> 'w \<Rightarrow> string \<Rightarrow> string \<Rightarrow> py_exception + string" where
  \<comment> \<open>the directory named after the archive, below the resolved base path\<close>
  "extraction_directory sys w unzip_base_path p_file_path =
     (let file_name_stem = path_stem sys p_file_path;
          file_name_stem = (if endswith (map py_lower file_name_stem) ''.tar''
                            then path_stem sys file_name_stem else file_name_stem)
      in case resolve sys w unzip_base_path of
           Inl e \<Rightarrow> Inl e
         | Inr base \<Rightarrow> Inr (path_join sys base file_name_stem))"

definition unzip_file :: "'w os \<Rightarrow> 'w \<Rightarrow> string \<Rightarrow> (py_exception + result_dict) \<times> 'w" where
  \<comment> \<open>\<open>Inl\<close>: the exception \<open>unzip_file\<close> raises to its caller; \<open>Inr\<close>: the dictionary it
      returns\<close>
  "unzip_file sys w file_path =
     (case environ_get sys w ''UNZIP_PATH'' of
        None \<Rightarrow> (Inr (error_dict ''Error: UNZIP_PATH environment variable is not set.''), w)
      | Some unzip_base_path \<Rightarrow>
          if unzip_base_path = []
          then (Inr (error_dict ''Error: UNZIP_PATH environment variable is not set.''), w)
          else
            (case resolve sys w file_path of
               Inl e \<Rightarrow> (Inl e, w)
             | Inr p_file_path \<Rightarrow>
                 (case path_exists sys w p_file_path of
                    Inl e \<Rightarrow> (Inl e, w)
                  | Inr False \<Rightarrow>
                      (Inr (error_dict (''Error: The file '' @ file_path
                                         @ '' does not exist.'')), w)
                  | Inr True \<Rightarrow>
                      (case is_file sys w p_file_path of
                         Inl e \<Rightarrow> (Inl e, w)
                       | Inr False \<Rightarrow>
                           (Inr (error_dict (''Error: '' @ file_path @ '' is not a file.'')), w)
                       | Inr True \<Rightarrow>
                           (case extraction_directory sys w unzip_base_path p_file_path of
                              Inl e \<Rightarrow> (Inl e, w)
                            | Inr extract_dir \<Rightarrow>
                                (case already_extracted sys w extract_dir of
                                   Inl e \<Rightarrow> (Inl e, w)
                                 | Inr True \<Rightarrow>
                                     (Inr [(''status'', Text ''success''),
                                           (''extract_dir'', Text extract_dir),
                                           (''extracted_files'',
                                              Items (get_file_list sys w extract_dir)),
                                           (''message'',
                                              Text (''Archive '' @ [CHR 0x27] @ file_path
                                                @ [CHR 0x27]
                                                @ '' appears to be already extracted to ''
                                                @ [CHR 0x27] @ extract_dir @ [CHR 0x27]
                                                @ ''.''))],
                                      w)
                                 | Inr False \<Rightarrow>
                                     extract_into sys w file_path p_file_path extract_dir))))))"

definition has_status :: "result_dict \<Rightarrow> string \<Rightarrow> bool" where
  "has_status d t = (map_of d ''status'' = Some (Text t))"

definition has_message :: "result_dict \<Rightarrow> bool" where
  "has_message d = (case map_of d ''message'' of Some (Text m) \<Rightarrow> True | _ \<Rightarrow> False)"

definition plain_os :: "bool os" where
  \<comment> \<open>a world with the archive \<open>/in/a.zip\<close> and the base directory \<open>/out\<close>; the state
      says whether the archive has been extracted\<close>
  "plain_os =
     \<lparr>environ_get = (\<lambda>w k. if k = ''UNZIP_PATH'' then Some ''/out'' else None),
      resolve = (\<lambda>w p. Inr p),
      path_exists = (\<lambda>w p. Inr (p = ''/in/a.zip'' \<or> p = ''/out'' \<or> (w \<and> p = ''/out/a''))),
      is_file = (\<lambda>w p. Inr (p = ''/in/a.zip'' \<or> (w \<and> p = ''/out/a/x.txt''))),
      is_dir = (\<lambda>w p. Inr (p = ''/out'' \<or> (w \<and> p = ''/out/a''))),
      stat_size = (\<lambda>w p. Inr 5),
      any_iterdir = (\<lambda>w p. Inr (w \<and> p = ''/out/a'')),
      rglob = (\<lambda>w p. if w \<and> p = ''/out/a'' then ([''/out/a/x.txt''], None) else ([], None)),
      path_stem = (\<lambda>p. if p = ''/in/a.zip'' then ''a'' else p),
      path_join = (\<lambda>d n. d @ ''/'' @ n),
      mkdir_parents = (\<lambda>w p. (None, w)),
      rmtree = (\<lambda>w p. (None, w)),
      is_zipfile = (\<lambda>w p. Inr (p = ''/in/a.zip'')),
      is_tarfile = (\<lambda>w p. Inr False),
      zip_extractall = (\<lambda>w a d. (None, True)),
      tar_extractall = (\<lambda>w a d. (Some (TarError ''file could not be opened successfully''), w)),
      gzip_copy = (\<lambda>w a d. (Some (BadGzipFile ''Not a gzipped file''), w)),
      bz2_copy = (\<lambda>w a d. (Some (OSError ''Invalid data stream''), w)),
      lzma_copy = (\<lambda>w a d. (Some (LZMAError ''Input format not supported by decoder''), w))\<rparr>"

definition locked_dir_os :: "bool os" where
  \<comment> \<open>the same world, in which the extraction directory \<open>/out/a\<close> exists and the process
      may not list it\<close>
  "locked_dir_os =
     plain_os
       \<lparr>path_exists := (\<lambda>w p. Inr (p = ''/in/a.zip'' \<or> p = ''/out'' \<or> p = ''/out/a'')),
        is_dir := (\<lambda>w p. Inr (p = ''/out'' \<or> p = ''/out/a'')),
        any_iterdir := (\<lambda>w p. Inl (OSError ''[Errno 13] Permission denied: /out/a''))\<rparr>"

section \<open>Example runs\<close>

definition alice :: agent where
  \<comment> \<open>a participant that answers in round 0 and produces nothing afterwards\<close>
  "alice = \<lparr>identity = ''Alice'', respond = (\<lambda>i. if i = 0 then Some ''hi'' else None)\<rparr>"

definition bob :: agent where
  \<comment> \<open>a participant that fails in every round\<close>
  "bob = \<lparr>identity = ''Bob'', respond = (\<lambda>i. None)\<rparr>"

definition undecided :: agent where
  \<comment> \<open>a coordinator that never signals consensus\<close>
  "undecided = \<lparr>identity = ''Coordinator'', respond = (\<lambda>i. Some ''go on'')\<rparr>"

definition decided :: agent where
  \<comment> \<open>a coordinator that signals consensus in round 1\<close>
  "decided =
     \<lparr>identity = ''Coordinator'',
      respond = (\<lambda>i. if i = 1 then Some ''<Consensus_Reached/> FINAL ANSWER: 42''
                      else Some ''go on'')\<rparr>"

definition lead :: agent where
  \<comment> \<open>a coordinator under another name, signalling consensus in every round\<close>
  "lead = \<lparr>identity = ''Lead'', respond = (\<lambda>i. Some ''<consensus_reached/>'')\<rparr>"

definition namesake :: agent where
  \<comment> \<open>a participant whose identity is \<open>Coordinator\<close>\<close>
  "namesake = \<lparr>identity = ''Coordinator'', respond = (\<lambda>i. Some ''<consensus_reached/>'')\<rparr>"

definition chat_undecided :: group_chat where
  "chat_undecided = \<lparr>coordinator_agent = undecided, group_agents = [alice, bob], max_iterations = 2\<rparr>"

definition chat_decided :: group_chat where
  "chat_decided = \<lparr>coordinator_agent = decided, group_agents = [alice, bob], max_iterations = 5\<rparr>"

definition chat_lead :: group_chat where
  "chat_lead = \<lparr>coordinator_agent = lead, group_agents = [alice, bob], max_iterations = 2\<rparr>"

definition chat_namesake :: group_chat where
  "chat_namesake =
     \<lparr>coordinator_agent = lead\<lparr>respond := (\<lambda>i. Some ''go on'')\<rparr>,
      group_agents = [namesake], max_iterations = 3\<rparr>"

definition hasty :: agent where
  \<comment> \<open>a coordinator that opens the tag and never closes it\<close>
  "hasty = \<lparr>identity = ''Coordinator'', respond = (\<lambda>i. Some ''<consensus_reached> not yet'')\<rparr>"

definition chat_hasty :: group_chat where
  "chat_hasty = \<lparr>coordinator_agent = hasty, group_agents = [alice], max_iterations = 3\<rparr>"

section \<open>The consensus detector\<close>

lemma match_lit_ci_Some:
  "match_lit_ci p t = Some r \<longleftrightarrow> (\<exists>u. t = u @ r \<and> ci_eq u p)"
proof (induction p t rule: match_lit_ci.induct)
  case (1 t)
  then show ?case by (auto simp: ci_eq_def)
next
  case (2 p ps)
  then show ?case by (auto simp: ci_eq_def)
next
  case (3 p ps c cs)
  show ?case
  proof (cases "py_lower c = py_lower p")
    case True
    have "(\<exists>u. c # cs = u @ r \<and> ci_eq u (p # ps)) \<longleftrightarrow> (\<exists>u'. cs = u' @ r \<and> ci_eq u' ps)"
      using True by (auto simp: ci_eq_def Cons_eq_append_conv)
    with 3 True show ?thesis by simp
  next
    case False
    then show ?thesis by (auto simp: ci_eq_def Cons_eq_append_conv)
  qed
qed

lemma match_lit_ci_append:
  "match_lit_ci (p @ q) t = (case match_lit_ci p t of None \<Rightarrow> None | Some r \<Rightarrow> match_lit_ci q r)"
  by (induction p t rule: match_lit_ci.induct) auto

lemma re_search_iff:
  "re_search P t \<longleftrightarrow> (\<exists>pre suf. t = pre @ suf \<and> P suf)"
proof (induction t)
  case Nil
  then show ?case by simp
next
  case (Cons c cs)
  have "(\<exists>pre suf. c # cs = pre @ suf \<and> P suf) \<longleftrightarrow> P (c # cs) \<or> (\<exists>pre suf. cs = pre @ suf \<and> P suf)"
    by (auto simp: Cons_eq_append_conv) 
  with Cons show ?case by simp
qed

lemma re_search_mono:
  "re_search P t \<Longrightarrow> (\<And>u. P u \<Longrightarrow> Q u) \<Longrightarrow> re_search Q t"
  by (induction t) auto

lemma py_lower_slash: "py_lower c = CHR ''/'' \<longleftrightarrow> c = CHR ''/''"
  by (cases c) (auto simp: py_lower_def Let_def)

lemma py_lower_gt: "py_lower c = CHR ''>'' \<longleftrightarrow> c = CHR ''>''"
  by (cases c) (auto simp: py_lower_def Let_def)

lemma not_isspace_slash: "\<not> isspace (CHR ''/'')"
  by (simp add: isspace_def)

lemma match_close_iff:
  "match_lit_ci ''/>'' t = Some r \<longleftrightarrow> t = ''/>'' @ r"
proof (cases t)
  case Nil
  then show ?thesis by simp
next
  case (Cons a t')
  then show ?thesis
    by (cases t') (auto simp: py_lower_slash py_lower_gt py_lower_def[of "CHR ''/''"] py_lower_def[of "CHR ''>''"])
qed

lemma match_gt_iff:
  "match_lit_ci ''>'' t = Some r \<longleftrightarrow> t = ''>'' @ r"
  by (cases t) (auto simp: py_lower_gt py_lower_def[of "CHR ''>''"])

lemma self_closing_tail_iff:
  "match_lit_ci ''/>'' (dropWhile isspace r) \<noteq> None
     \<longleftrightarrow> (\<exists>ws post. r = ws @ ''/>'' @ post \<and> list_all isspace ws)"
proof
  assume "match_lit_ci ''/>'' (dropWhile isspace r) \<noteq> None"
  then obtain post where "dropWhile isspace r = ''/>'' @ post"
    by (auto simp: match_close_iff)
  then have "r = takeWhile isspace r @ ''/>'' @ post"
    by (metis takeWhile_dropWhile_id)
  moreover have "list_all isspace (takeWhile isspace r)"
    by (simp add: list_all_iff) (meson set_takeWhileD)
  ultimately show "\<exists>ws post. r = ws @ ''/>'' @ post \<and> list_all isspace ws"
    by blast
next
  assume "\<exists>ws post. r = ws @ ''/>'' @ post \<and> list_all isspace ws"
  then obtain ws post where r: "r = ws @ ''/>'' @ post" and ws: "list_all isspace ws"
    by blast
  have "dropWhile isspace r = ''/>'' @ post"
    unfolding r using ws not_isspace_slash
    by (simp add: dropWhile_append3 list_all_iff dropWhile_append)
  then show "match_lit_ci ''/>'' (dropWhile isspace r) \<noteq> None"
    by (simp add: match_close_iff)
qed

lemma tag_at_iff:
  "tag_at tag t \<longleftrightarrow>
     (\<exists>u ws post. t = u @ ws @ ''/>'' @ post \<and> ci_eq u (''<'' @ tag) \<and> list_all isspace ws)
     \<or> (\<exists>u post. t = u @ ''>'' @ post \<and> ci_eq u (''<'' @ tag))"
proof (cases "match_lit_ci (''<'' @ tag) t")
  case None
  then have "\<And>u r. t = u @ r \<Longrightarrow> \<not> ci_eq u (''<'' @ tag)"
    using match_lit_ci_Some[of "''<'' @ tag" t] by auto
  with None show ?thesis
    by (auto simp: tag_at_def)
next
  case (Some r)
  then obtain u0 where t: "t = u0 @ r" and u0: "ci_eq u0 (''<'' @ tag)"
    by (auto simp: match_lit_ci_Some)
  have uniq: "u = u0 \<and> r' = r" if "t = u @ r'" "ci_eq u (''<'' @ tag)" for u r'
  proof -
    have "length u = length u0"
      using that(2) u0 by (metis ci_eq_def length_map)
    with that(1) t show ?thesis by auto
  qed
  have "tag_at tag t \<longleftrightarrow> match_lit_ci ''/>'' (dropWhile isspace r) \<noteq> None \<or> match_lit_ci ''>'' r \<noteq> None"
    using Some by (simp add: tag_at_def)
  also have "\<dots> \<longleftrightarrow> (\<exists>ws post. r = ws @ ''/>'' @ post \<and> list_all isspace ws) \<or> (\<exists>post. r = ''>'' @ post)"
  proof -
    have "match_lit_ci ''>'' r \<noteq> None \<longleftrightarrow> (\<exists>post. match_lit_ci ''>'' r = Some post)"
      by auto
    then have "match_lit_ci ''>'' r \<noteq> None \<longleftrightarrow> (\<exists>post. r = ''>'' @ post)"
      unfolding match_gt_iff .
    then show ?thesis
      unfolding self_closing_tail_iff by (rule arg_cong)
  qed
  also have "\<dots> \<longleftrightarrow> (\<exists>u ws post. t = u @ ws @ ''/>'' @ post \<and> ci_eq u (''<'' @ tag) \<and> list_all isspace ws)
     \<or> (\<exists>u post. t = u @ ''>'' @ post \<and> ci_eq u (''<'' @ tag))"
    (is "?L \<longleftrightarrow> ?R")
  proof
    assume ?L
    then show ?R using t u0 by auto
  next
    assume ?R
    then show ?L
    proof
      assume "\<exists>u ws post. t = u @ ws @ ''/>'' @ post \<and> ci_eq u (''<'' @ tag) \<and> list_all isspace ws"
      then obtain u ws post where *: "t = u @ ws @ ''/>'' @ post" "ci_eq u (''<'' @ tag)" "list_all isspace ws"
        by blast
      from uniq[OF *(1) *(2)] *(3) show ?L by blast
    next
      assume "\<exists>u post. t = u @ ''>'' @ post \<and> ci_eq u (''<'' @ tag)"
      then obtain u post where *: "t = u @ ''>'' @ post" "ci_eq u (''<'' @ tag)"
        by blast
      from uniq[OF *(1) *(2)] show ?L by blast
    qed
  qed
  finally show ?thesis .
qed

lemma check_tag_presence_iff:
  "check_tag_presence t tag \<longleftrightarrow>
     (\<exists>pre u ws post. t = pre @ u @ ws @ ''/>'' @ post \<and> ci_eq u (''<'' @ tag) \<and> list_all isspace ws)
     \<or> (\<exists>pre u post. t = pre @ u @ ''>'' @ post \<and> ci_eq u (''<'' @ tag))"
  unfolding check_tag_presence_def re_search_iff tag_at_iff by blast

lemma match_close_same:
  assumes "match_lit_ci ''/>'' r \<noteq> None"
  shows "dropWhile isspace r = r"
proof -
  from assms obtain post where "r = ''/>'' @ post"
    by (auto simp: match_close_iff)
  then show ?thesis using not_isspace_slash by simp
qed

lemma tag_at_self_closing:
  assumes "match_lit_ci ''<consensus_reached/>'' u \<noteq> None"
  shows "tag_at ''consensus_reached'' u"
proof -
  have "match_lit_ci ((''<'' @ ''consensus_reached'') @ ''/>'') u \<noteq> None"
    using assms by simp
  then obtain r where r: "match_lit_ci (''<'' @ ''consensus_reached'') u = Some r"
    and c: "match_lit_ci ''/>'' r \<noteq> None"
    unfolding match_lit_ci_append[of "''<'' @ ''consensus_reached''" "''/>''" u]
    by (cases "match_lit_ci (''<'' @ ''consensus_reached'') u") auto
  from c have "dropWhile isspace r = r" by (rule match_close_same)
  with r c show ?thesis by (simp add: tag_at_def)
qed

lemma tag_at_opening:
  assumes "match_lit_ci ''<consensus_reached>'' u \<noteq> None"
  shows "tag_at ''consensus_reached'' u"
proof -
  have "match_lit_ci ((''<'' @ ''consensus_reached'') @ ''>'') u \<noteq> None"
    using assms by simp
  then obtain r where r: "match_lit_ci (''<'' @ ''consensus_reached'') u = Some r"
    and c: "match_lit_ci ''>'' r \<noteq> None"
    unfolding match_lit_ci_append[of "''<'' @ ''consensus_reached''" "''>''" u]
    by (cases "match_lit_ci (''<'' @ ''consensus_reached'') u") auto
  with r c show ?thesis by (simp add: tag_at_def)
qed

lemma spec_marker_detected:
  assumes "spec_marker_present t"
  shows "check_tag_presence t ''consensus_reached''"
proof -
  from assms consider
    (sc) "re_search (\<lambda>u. match_lit_ci ''<consensus_reached/>'' u \<noteq> None) t"
    | (pair) "re_search (\<lambda>u. case match_lit_ci ''<consensus_reached>'' u of
                          None \<Rightarrow> False
                        | Some r \<Rightarrow> contains_ci ''</consensus_reached>'' r) t"
    by (auto simp: spec_marker_present_def contains_ci_def)
  then show ?thesis
  proof cases
    case sc
    then show ?thesis
      unfolding check_tag_presence_def
      by (rule re_search_mono) (rule tag_at_self_closing)
  next
    case pair
    then show ?thesis
      unfolding check_tag_presence_def
      by (rule re_search_mono) (auto intro!: tag_at_opening split: option.splits)
  qed
qed

text \<open>
  Claim C1, as the code has it. The detector is a function of the coordinator's message
  alone. It yields true exactly when the message holds, in any casing, the text
  \<open><consensus_reached\<close> followed by optional white space and \<open>/>\<close>, or the opening tag
  \<open><consensus_reached>\<close>, whether or not a closing tag follows. So it yields true for
  every message that holds the self-closing or the paired form, around whatever text,
  and false for the empty message and for a session without the coordinator's message.
\<close>

theorem consensus_detector_iff:
  "(check_tag_presence t ''consensus_reached'' \<longleftrightarrow>
      (\<exists>pre u ws post. t = pre @ u @ ws @ ''/>'' @ post
          \<and> ci_eq u ''<consensus_reached'' \<and> list_all isspace ws)
      \<or> (\<exists>pre u post. t = pre @ u @ ''>'' @ post \<and> ci_eq u ''<consensus_reached''))
   \<and> (spec_marker_present t \<longrightarrow> check_tag_presence t ''consensus_reached'')
   \<and> \<not> check_tag_presence [] ''consensus_reached''
   \<and> (map_of s ''Coordinator_message'' = None \<longrightarrow> \<not> check_consensus s)"
proof -
  have empty: "\<not> check_tag_presence [] ''consensus_reached''"
    by (simp add: check_tag_presence_def tag_at_def)
  have absent: "map_of s ''Coordinator_message'' = None \<longrightarrow> \<not> check_consensus s"
    using empty by (simp add: check_consensus_def state_get_def)
  have tag: "''<'' @ ''consensus_reached'' = ''<consensus_reached''"
    by simp
  have iff: "check_tag_presence t ''consensus_reached'' \<longleftrightarrow>
      (\<exists>pre u ws post. t = pre @ u @ ws @ ''/>'' @ post
          \<and> ci_eq u ''<consensus_reached'' \<and> list_all isspace ws)
      \<or> (\<exists>pre u post. t = pre @ u @ ''>'' @ post \<and> ci_eq u ''<consensus_reached'')"
    using check_tag_presence_iff[of t "''consensus_reached''"] unfolding tag .
  have spec: "spec_marker_present t \<longrightarrow> check_tag_presence t ''consensus_reached''"
    using spec_marker_detected by (rule impI)
  from iff spec empty absent show ?thesis
    by (intro conjI)
qed

theorem consensus_detector_iff_witness:
  "spec_marker_present ''ok <Consensus_Reached>yes</CONSENSUS_REACHED>''
   \<and> check_tag_presence ''ok <Consensus_Reached>yes</CONSENSUS_REACHED>'' ''consensus_reached''
   \<and> map_of ([] :: state) ''Coordinator_message'' = None
   \<and> \<not> check_consensus []"
proof -
  have h: "spec_marker_present ''ok <Consensus_Reached>yes</CONSENSUS_REACHED>''"
    by code_simp
  have m: "map_of ([] :: state) ''Coordinator_message'' = None"
    by simp
  note t = consensus_detector_iff[of "''ok <Consensus_Reached>yes</CONSENSUS_REACHED>''" "[]"]
  have c: "check_tag_presence ''ok <Consensus_Reached>yes</CONSENSUS_REACHED>'' ''consensus_reached''"
    using t[THEN conjunct2, THEN conjunct1] h by (rule mp)
  have n: "\<not> check_consensus []"
    using t[THEN conjunct2, THEN conjunct2, THEN conjunct2] m by (rule mp)
  from h c m n show ?thesis by (intro conjI)
qed

text \<open>
  The claim as worded fails: an opening tag without its closing tag is neither of the two
  forms, and the detector yields true on it.
\<close>

theorem consensus_detector_counterexample:
  "check_tag_presence ''<consensus_reached>'' ''consensus_reached''
   \<and> \<not> spec_marker_present ''<consensus_reached>''"
  by code_simp

section \<open>The transcript\<close>

lemma state_get_update_same: "state_get (AList.update k v s) k d = v"
  by (simp add: state_get_def update_conv')

lemma state_get_update_other: "k' \<noteq> k \<Longrightarrow> state_get (AList.update k v s) k' d = state_get s k' d"
  by (simp add: state_get_def update_conv')

lemma apply_state_delta_single: "apply_state_delta [(k, v)] s = AList.update k v s"
  by (simp add: apply_state_delta_def)

lemma update_chat_history_eq:
  "update_chat_history s = AList.update ''chat_history'' (updated_chat_history s) s"
  by (simp add: update_chat_history_def update_chat_history_delta_def apply_state_delta_single)

lemma chat_history_update:
  "chat_history (update_chat_history s) = chat_history s @ [NL] @ round_text s"
  by (simp add: chat_history_def update_chat_history_eq state_get_update_same updated_chat_history_def)

lemma output_key_not_chat_history: "output_key a \<noteq> ''chat_history''"
proof
  assume "output_key a = ''chat_history''"
  then have "last (identity a @ ''_message'') = last ''chat_history''"
    by (simp add: output_key_def)
  then show False by simp
qed

lemma chat_history_agent_step: "chat_history (agent_step a i s) = chat_history s"
proof (cases "respond a i")
  case None
  then show ?thesis by (simp add: agent_step_def)
next
  case (Some m)
  have "''chat_history'' \<noteq> output_key a"
    using output_key_not_chat_history[of a] by simp
  then show ?thesis
    using Some
    by (simp add: agent_step_def apply_state_delta_single chat_history_def state_get_update_other)
qed

lemma chat_history_fold_agents:
  "chat_history (fold (\<lambda>a. agent_step a i) as s) = chat_history s"
  by (induction as arbitrary: s) (simp_all add: chat_history_agent_step)

lemma chat_history_before_round_update:
  "chat_history (coordinator_step g i (working_group g i s)) = chat_history s"
  by (simp add: coordinator_step_def working_group_def chat_history_agent_step chat_history_fold_agents)

lemma rounds_from_Suc:
  "rounds_from g i (Suc n) s = run_round g (i + n) (rounds_from g i n s)"
proof (induction n arbitrary: i s)
  case 0
  then show ?case by simp
next
  case (Suc n)
  have "rounds_from g i (Suc (Suc n)) s = rounds_from g (Suc i) (Suc n) (run_round g i s)"
    by simp
  also have "\<dots> = run_round g (Suc i + n) (rounds_from g (Suc i) n (run_round g i s))"
    by (rule Suc.IH)
  finally show ?case by simp
qed

lemma session_after_0: "session_after g 0 s = s"
  by (simp add: session_after_def)

lemma session_after_Suc:
  "session_after g (Suc n) s = update_chat_history (before_update g n s)"
  unfolding session_after_def before_update_def
  using rounds_from_Suc[of g 0 n s] by (simp add: run_round_def session_after_def)

lemma chat_history_before_update:
  "chat_history (before_update g i s) = chat_history (session_after g i s)"
  by (simp add: before_update_def chat_history_before_round_update)

lemma chat_history_session_Suc:
  "chat_history (session_after g (Suc i) s)
     = chat_history (session_after g i s) @ [NL] @ round_text (before_update g i s)"
  by (simp add: session_after_Suc chat_history_update chat_history_before_update)

lemma chat_history_session_mono:
  "j \<le> i \<Longrightarrow> prefix (chat_history (session_after g j s)) (chat_history (session_after g i s))"
proof (induction i)
  case 0
  then show ?case by simp
next
  case (Suc i)
  show ?case
  proof (cases "j = Suc i")
    case True
    then show ?thesis by simp
  next
    case False
    with Suc.prems have "j \<le> i" by simp
    then have "prefix (chat_history (session_after g j s)) (chat_history (session_after g i s))"
      by (rule Suc.IH)
    moreover have "prefix (chat_history (session_after g i s)) (chat_history (session_after g (Suc i) s))"
      by (simp add: chat_history_session_Suc)
    ultimately show ?thesis by (rule prefix_order.trans)
  qed
qed

text \<open>
  Claim C4. The transcript update sets \<open>chat_history\<close> to its previous value followed by
  a line feed and the text of the round, and no agent writes that key, since every
  output key ends in \<open>_message\<close>. So the transcript after round \<open>i\<close> is the transcript
  after round \<open>i - 1\<close> with new text behind it, and the transcript of every earlier
  round stays a prefix of every later one: nothing appended is removed or rewritten.
\<close>

theorem chat_history_append_only:
  "chat_history (update_chat_history s) = chat_history s @ [NL] @ round_text s
   \<and> chat_history (session_after g (Suc i) init)
       = chat_history (session_after g i init) @ [NL] @ round_text (before_update g i init)
   \<and> strict_prefix (chat_history (session_after g i init))
                    (chat_history (session_after g (Suc i) init))
   \<and> (j \<le> i \<longrightarrow> prefix (chat_history (session_after g j init))
                         (chat_history (session_after g i init)))"
proof -
  have "strict_prefix (chat_history (session_after g i init))
                      (chat_history (session_after g (Suc i) init))"
    by (simp add: chat_history_session_Suc strict_prefix_def)
  then show ?thesis
    using chat_history_update chat_history_session_Suc chat_history_session_mono
    by (intro conjI impI)
qed

theorem chat_history_append_only_witness:
  "(1 :: nat) \<le> 2
   \<and> prefix (chat_history (session_after chat_undecided 1 [(''chat_history'', ''[user]: q'')]))
            (chat_history (session_after chat_undecided 2 [(''chat_history'', ''[user]: q'')]))
   \<and> chat_history (session_after chat_undecided 1 [(''chat_history'', ''[user]: q'')])
       = ''[user]: q\<newline>[Alice]: hi\<newline>\<newline>[Coordinator]: go on\<newline>''"
proof -
  have le: "(1 :: nat) \<le> 2"
    by simp
  note t = chat_history_append_only[where g = chat_undecided and i = 2 and j = 1
      and init = "[(''chat_history'', ''[user]: q'')]"]
  have p: "prefix (chat_history (session_after chat_undecided 1 [(''chat_history'', ''[user]: q'')]))
            (chat_history (session_after chat_undecided 2 [(''chat_history'', ''[user]: q'')]))"
    using t[THEN conjunct2, THEN conjunct2, THEN conjunct2] le by (rule mp)
  have v: "chat_history (session_after chat_undecided 1 [(''chat_history'', ''[user]: q'')])
       = ''[user]: q\<newline>[Alice]: hi\<newline>\<newline>[Coordinator]: go on\<newline>''"
    by code_simp
  from le p v show ?thesis by (intro conjI)
qed

lemma in_set_updateD:
  "(a, b) \<in> set (AList.update k v al) \<Longrightarrow> (a, b) = (k, v) \<or> (a, b) \<in> set al"
  by (induction al) (auto split: if_splits)

lemma fold_collect_distinct:
  "distinct (map fst d) \<Longrightarrow>
   distinct (map fst (fold (\<lambda>(k, v) d. case name_of_key k of None \<Rightarrow> d | Some n \<Rightarrow> AList.update n v d) s d))"
  by (induction s arbitrary: d) (auto simp: distinct_update split: option.splits)

lemma fold_collect_names:
  "fst ` set (fold (\<lambda>(k, v) d. case name_of_key k of None \<Rightarrow> d | Some n \<Rightarrow> AList.update n v d) s d)
     = fst ` set d \<union> {n. \<exists>k \<in> fst ` set s. name_of_key k = Some n}"
proof (induction s arbitrary: d)
  case Nil
  then show ?case by simp
next
  case (Cons p s)
  obtain k v where p: "p = (k, v)" by (cases p)
  show ?case
  proof (cases "name_of_key k")
    case None
    then show ?thesis
      using Cons.IH[of d] p by auto
  next
    case (Some n)
    then show ?thesis
      using Cons.IH[of "AList.update n v d"] p by (auto simp: dom_update)
  qed
qed

lemma fold_collect_values:
  "(n, m) \<in> set (fold (\<lambda>(k, v) d. case name_of_key k of None \<Rightarrow> d | Some n \<Rightarrow> AList.update n v d) s d)
   \<Longrightarrow> (n, m) \<in> set d \<or> (\<exists>k. (k, m) \<in> set s \<and> name_of_key k = Some n)"
proof (induction s arbitrary: d)
  case Nil
  then show ?case by simp
next
  case (Cons p s)
  obtain k v where p: "p = (k, v)" by (cases p)
  show ?case
  proof (cases "name_of_key k")
    case None
    then show ?thesis
      using Cons.IH[of d] Cons.prems p by auto
  next
    case (Some n')
    then have "(n, m) \<in> set (AList.update n' v d) \<or> (\<exists>k. (k, m) \<in> set s \<and> name_of_key k = Some n)"
      using Cons.IH[of "AList.update n' v d"] Cons.prems p by simp
    then show ?thesis
      using Some p by (auto dest: in_set_updateD)
  qed
qed

lemma new_messages_distinct: "distinct (map fst (new_messages s))"
  unfolding new_messages_def by (rule fold_collect_distinct) simp

lemma new_messages_names:
  "fst ` set (new_messages s) = {n. \<exists>k \<in> fst ` set s. name_of_key k = Some n}"
  unfolding new_messages_def fold_collect_names by simp

lemma new_messages_values:
  "(n, m) \<in> set (new_messages s) \<Longrightarrow> \<exists>k. (k, m) \<in> set s \<and> name_of_key k = Some n"
  unfolding new_messages_def using fold_collect_values[of n m s "[]"] by simp

lemma name_of_key_iff:
  assumes "k = [] \<or> last k \<noteq> NL"
  shows "name_of_key k = Some n \<longleftrightarrow> k = n @ ''_message'' \<and> n \<noteq> [] \<and> NL \<notin> set n"
proof
  assume h: "name_of_key k = Some n"
  from assms have k': "(if k \<noteq> [] \<and> last k = NL then butlast k else k) = k"
    by auto
  from h have len: "8 < length k" and d: "drop (length k - 8) k = ''_message''"
    and nl: "NL \<notin> set (take (length k - 8) k)" and n: "n = take (length k - 8) k"
    unfolding name_of_key_def k' Let_def by (auto split: if_splits)
  have "k = take (length k - 8) k @ drop (length k - 8) k"
    by simp
  then have "k = n @ ''_message''"
    using n d by simp
  moreover have "n \<noteq> []"
    using n len by auto
  ultimately show "k = n @ ''_message'' \<and> n \<noteq> [] \<and> NL \<notin> set n"
    using nl n by simp
next
  assume h: "k = n @ ''_message'' \<and> n \<noteq> [] \<and> NL \<notin> set n"
  then have k: "k = n @ ''_message''" and ne: "n \<noteq> []" and nl: "NL \<notin> set n"
    by simp_all
  have k': "(if k \<noteq> [] \<and> last k = NL then butlast k else k) = k"
    unfolding k by simp
  have l: "length k - 8 = length n"
    unfolding k by simp
  show "name_of_key k = Some n"
    unfolding name_of_key_def k' Let_def l using ne nl by (simp add: k)
qed

lemma name_of_key_output_key:
  "name_of_key (output_key a) = Some n \<Longrightarrow> n = identity a"
proof -
  assume h: "name_of_key (output_key a) = Some n"
  have "output_key a = [] \<or> last (output_key a) \<noteq> NL"
    by (simp add: output_key_def)
  from name_of_key_iff[OF this, of n] h show ?thesis
    by (simp add: output_key_def)
qed

lemma name_of_key_chat_history: "name_of_key ''chat_history'' = None"
  by (simp add: name_of_key_def)

lemma fold_collect_lookup:
  assumes "distinct (map fst s)" and "\<forall>k \<in> fst ` set s. k = [] \<or> last k \<noteq> NL"
  shows "map_of (fold (\<lambda>(k, v) d. case name_of_key k of None \<Rightarrow> d | Some n \<Rightarrow> AList.update n v d) s d) n
     = (case map_of s (n @ ''_message'') of
          None \<Rightarrow> map_of d n
        | Some v \<Rightarrow> if n \<noteq> [] \<and> NL \<notin> set n then Some v else map_of d n)"
  using assms
proof (induction s arbitrary: d)
  case Nil
  then show ?case by simp
next
  case (Cons p s)
  obtain k v where p: "p = (k, v)" by (cases p)
  from Cons.prems p have dist: "distinct (map fst s)" and notin: "k \<notin> fst ` set s"
    and ends: "\<forall>k \<in> fst ` set s. k = [] \<or> last k \<noteq> NL" and kend: "k = [] \<or> last k \<noteq> NL"
    by auto
  note iff = name_of_key_iff[OF kend]
  from notin have nolook: "map_of s k = None"
    by (simp add: map_of_eq_None_iff)
  show ?case
  proof (cases "name_of_key k")
    case None
    have "map_of (fold (\<lambda>(k, v) d. case name_of_key k of None \<Rightarrow> d | Some n \<Rightarrow> AList.update n v d) (p # s) d) n
        = (case map_of s (n @ ''_message'') of
          None \<Rightarrow> map_of d n
        | Some v \<Rightarrow> if n \<noteq> [] \<and> NL \<notin> set n then Some v else map_of d n)"
      using Cons.IH[OF dist ends, of d] None p by simp
    also have "\<dots> = (case map_of (p # s) (n @ ''_message'') of
          None \<Rightarrow> map_of d n
        | Some v \<Rightarrow> if n \<noteq> [] \<and> NL \<notin> set n then Some v else map_of d n)"
    proof (cases "k = n @ ''_message''")
      case True
      with None iff[of n] have "\<not> (n \<noteq> [] \<and> NL \<notin> set n)" by auto
      then show ?thesis using True nolook p by (auto split: option.splits)
    next
      case False
      then show ?thesis using p by simp
    qed
    finally show ?thesis .
  next
    case (Some n')
    with iff[of n'] have k: "k = n' @ ''_message''" and valid: "n' \<noteq> [] \<and> NL \<notin> set n'"
      by auto
    have step: "map_of (fold (\<lambda>(k, v) d. case name_of_key k of None \<Rightarrow> d | Some n \<Rightarrow> AList.update n v d) (p # s) d) n
        = (case map_of s (n @ ''_message'') of
          None \<Rightarrow> map_of (AList.update n' v d) n
        | Some w \<Rightarrow> if n \<noteq> [] \<and> NL \<notin> set n then Some w else map_of (AList.update n' v d) n)"
      using Cons.IH[OF dist ends, of "AList.update n' v d"] Some p by simp
    show ?thesis
    proof (cases "n' = n")
      case True
      have a: "map_of (p # s) (n @ ''_message'') = Some v"
        using p k True by simp
      have b: "map_of (AList.update n' v d) n = Some v"
        using True by (simp add: update_conv')
      have c: "map_of s (n @ ''_message'') = None"
        using nolook k True by simp
      show ?thesis
        unfolding step a b c using valid True by simp
    next
      case False
      then have "k \<noteq> n @ ''_message''" using k by simp
      then have a: "map_of (p # s) (n @ ''_message'') = map_of s (n @ ''_message'')"
        using p by simp
      have b: "map_of (AList.update n' v d) n = map_of d n"
        using False by (simp add: update_conv')
      show ?thesis
        unfolding step a b ..
    qed
  qed
qed

lemma new_messages_lookup:
  assumes "distinct (map fst s)" and "\<forall>k \<in> fst ` set s. k = [] \<or> last k \<noteq> NL"
  shows "map_of (new_messages s) n
     = (if n \<noteq> [] \<and> NL \<notin> set n then map_of s (n @ ''_message'') else None)"
  unfolding new_messages_def fold_collect_lookup[OF assms]
  by (simp split: option.splits)

lemma keys_agent_step:
  "k \<in> fst ` set (agent_step a i s) \<Longrightarrow>
     k \<in> fst ` set s \<or> (k = output_key a \<and> respond a i \<noteq> None)"
  by (cases "respond a i") (auto simp: agent_step_def apply_state_delta_single dom_update)

lemma keys_fold_agents:
  "k \<in> fst ` set (fold (\<lambda>a. agent_step a i) as s) \<Longrightarrow>
     k \<in> fst ` set s \<or> (\<exists>a \<in> set as. k = output_key a \<and> respond a i \<noteq> None)"
proof (induction as arbitrary: s)
  case Nil
  then show ?case by simp
next
  case (Cons a as)
  from Cons.prems have "k \<in> fst ` set (fold (\<lambda>a. agent_step a i) as (agent_step a i s))"
    by simp
  then have "k \<in> fst ` set (agent_step a i s)
      \<or> (\<exists>a \<in> set as. k = output_key a \<and> respond a i \<noteq> None)"
    by (rule Cons.IH)
  then show ?case
    using keys_agent_step[of k a i s] by auto
qed

lemma keys_update_chat_history:
  "fst ` set (update_chat_history s) = insert ''chat_history'' (fst ` set s)"
  by (simp add: update_chat_history_eq dom_update)

lemma keys_before_update:
  assumes "k \<in> fst ` set (before_update g i init)"
  shows "k \<in> fst ` set (session_after g i init)
     \<or> (\<exists>a \<in> set (group_agents g @ [coordinator_agent g]). k = output_key a \<and> respond a i \<noteq> None)"
proof -
  from assms have "k \<in> fst ` set (agent_step (coordinator_agent g) i
      (fold (\<lambda>a. agent_step a i) (group_agents g) (session_after g i init)))"
    by (simp add: before_update_def coordinator_step_def working_group_def)
  then have "k \<in> fst ` set (fold (\<lambda>a. agent_step a i) (group_agents g) (session_after g i init))
     \<or> (k = output_key (coordinator_agent g) \<and> respond (coordinator_agent g) i \<noteq> None)"
    by (rule keys_agent_step)
  then show ?thesis
    using keys_fold_agents[of k i "group_agents g" "session_after g i init"] by auto
qed

lemma keys_session_after:
  "k \<in> fst ` set (session_after g n init) \<Longrightarrow>
     k \<in> fst ` set init \<or> k = ''chat_history''
     \<or> (\<exists>a \<in> set (group_agents g @ [coordinator_agent g]). \<exists>r. k = output_key a \<and> respond a r \<noteq> None)"
proof (induction n)
  case 0
  then show ?case by (simp add: session_after_0)
next
  case (Suc n)
  from Suc.prems have "k = ''chat_history'' \<or> k \<in> fst ` set (before_update g n init)"
    by (simp add: session_after_Suc keys_update_chat_history)
  then show ?case
  proof
    assume "k = ''chat_history''"
    then show ?thesis by simp
  next
    assume "k \<in> fst ` set (before_update g n init)"
    from keys_before_update[OF this] show ?thesis
      using Suc.IH by blast
  qed
qed

lemma silent_agent_absent:
  assumes silent: "\<forall>a \<in> set (group_agents g @ [coordinator_agent g]).
                     identity a = n \<longrightarrow> (\<forall>r. respond a r = None)"
    and init: "\<forall>k \<in> fst ` set init. name_of_key k \<noteq> Some n"
  shows "n \<notin> fst ` set (new_messages (before_update g i init))"
proof
  assume "n \<in> fst ` set (new_messages (before_update g i init))"
  then obtain k where k: "k \<in> fst ` set (before_update g i init)" and nk: "name_of_key k = Some n"
    unfolding new_messages_names by blast
  from keys_before_update[OF k] keys_session_after[of k g i init]
  consider "k \<in> fst ` set init" | "k = ''chat_history''"
    | a r where "a \<in> set (group_agents g @ [coordinator_agent g])" "k = output_key a" "respond a r \<noteq> None"
    by blast
  then show False
  proof cases
    case 1
    with init nk show False by blast
  next
    case 2
    with nk show False by (simp add: name_of_key_chat_history)
  next
    case 3
    from nk 3(2) have "identity a = n"
      using name_of_key_output_key[of a n] by simp
    moreover from silent 3(1) have "identity a = n \<longrightarrow> (\<forall>r. respond a r = None)"
      by (rule bspec)
    ultimately have "respond a r = None"
      by simp
    with 3(3) show False by simp
  qed
qed

lemma distinct_agent_step:
  "distinct (map fst s) \<Longrightarrow> distinct (map fst (agent_step a i s))"
  by (cases "respond a i") (simp_all add: agent_step_def apply_state_delta_single distinct_update)

lemma distinct_fold_agents:
  "distinct (map fst s) \<Longrightarrow> distinct (map fst (fold (\<lambda>a. agent_step a i) as s))"
  by (induction as arbitrary: s) (simp_all add: distinct_agent_step)

lemma before_update_fold:
  "before_update g i init
     = fold (\<lambda>a. agent_step a i) (group_agents g @ [coordinator_agent g]) (session_after g i init)"
  by (simp add: before_update_def coordinator_step_def working_group_def)

lemma distinct_session_after:
  "distinct (map fst init) \<Longrightarrow> distinct (map fst (session_after g n init))"
proof (induction n)
  case 0
  then show ?case by (simp add: session_after_0)
next
  case (Suc n)
  then have "distinct (map fst (before_update g n init))"
    unfolding before_update_fold by (intro distinct_fold_agents) simp
  then show ?case
    by (simp add: session_after_Suc update_chat_history_eq distinct_update)
qed

lemma distinct_before_update:
  "distinct (map fst init) \<Longrightarrow> distinct (map fst (before_update g i init))"
  unfolding before_update_fold by (intro distinct_fold_agents distinct_session_after)

lemma keys_before_update_end:
  assumes "\<forall>k \<in> fst ` set init. k = [] \<or> last k \<noteq> NL"
  shows "\<forall>k \<in> fst ` set (before_update g i init). k = [] \<or> last k \<noteq> NL"
proof
  fix k
  assume "k \<in> fst ` set (before_update g i init)"
  from keys_before_update[OF this] keys_session_after[of k g i init]
  consider "k \<in> fst ` set init" | "k = ''chat_history''"
    | a where "k = output_key a"
    by blast
  then show "k = [] \<or> last k \<noteq> NL"
  proof cases
    case 1
    with assms show ?thesis by blast
  next
    case 2
    then show ?thesis by simp
  next
    case 3
    then show ?thesis by (simp add: output_key_def)
  qed
qed

lemma output_key_eq_iff: "output_key a = output_key b \<longleftrightarrow> identity a = identity b"
  by (simp add: output_key_def)

lemma map_of_fold_steps_other:
  assumes step: "\<And>b s k. map_of (f b s) k
        = (if k = key b then (case out b of None \<Rightarrow> map_of s k | Some m \<Rightarrow> Some m)
           else map_of s k)"
    and "key a \<notin> key ` set as"
  shows "map_of (fold f as s) (key a) = map_of s (key a)"
  using assms(2)
proof (induction as arbitrary: s)
  case Nil
  then show ?case by simp
next
  case (Cons b as)
  then have ne: "key a \<noteq> key b" and rest: "key a \<notin> key ` set as"
    by auto
  have "map_of (fold f (b # as) s) (key a) = map_of (f b s) (key a)"
    using Cons.IH[OF rest, of "f b s"] by simp
  then show ?case
    using ne by (simp add: step)
qed

lemma map_of_fold_steps:
  assumes step: "\<And>b s k. map_of (f b s) k
        = (if k = key b then (case out b of None \<Rightarrow> map_of s k | Some m \<Rightarrow> Some m)
           else map_of s k)"
    and "a \<in> set as" and "distinct (map key as)"
  shows "map_of (fold f as s) (key a)
       = (case out a of None \<Rightarrow> map_of s (key a) | Some m \<Rightarrow> Some m)"
  using assms(2,3)
proof (induction as arbitrary: s)
  case Nil
  then show ?case by simp
next
  case (Cons b as)
  show ?case
  proof (cases "a = b")
    case True
    from Cons.prems(2) have "key b \<notin> key ` set as"
      by simp
    from map_of_fold_steps_other[of f key out, OF step this, of "f b s"]
    show ?thesis
      unfolding True by (simp add: step)
  next
    case False
    with Cons.prems have mem: "a \<in> set as" and dist: "distinct (map key as)"
      and fresh: "key b \<notin> key ` set as"
      by auto
    from mem fresh have "key a \<noteq> key b"
      by (metis imageI)
    then have "map_of (f b s) (key a) = map_of s (key a)"
      by (simp add: step)
    with Cons.IH[OF mem dist, of "f b s"] show ?thesis
      by (simp split: option.split)
  qed
qed

lemma distinct_output_keys:
  "distinct (map identity as) \<Longrightarrow> distinct (map output_key as)"
  by (induction as) (auto simp: output_key_eq_iff)

lemma map_of_update_chat_history:
  "k \<noteq> ''chat_history'' \<Longrightarrow> map_of (update_chat_history s) k = map_of s k"
  by (simp add: update_chat_history_eq update_conv')

text \<open>
  Claim C5, as the code has it. The transcript updater appends a line feed and then, joined
  by line feeds, one entry \<open>[identity]: message\<close> followed by a line feed for every
  identity for which the session holds a key \<open><identity>_message\<close>, each such identity
  exactly once. In a session with distinct keys (a dictionary) of which none ends in a
  line feed, the identities are the non-empty ones without a line feed, and the message
  of an entry is the value stored under the key. The updater reads the session, not the
  round. In a run from such a session, with agents of distinct identities, the entry of
  an agent with such an identity holds the message it produced in the round just
  completed, if it produced one; if it produced none, the entry is the one of the fold
  of the round before, and in round 0 the value the initial session holds under its key,
  if any. A participant that produces nothing in any round, and for whose identity the
  initial session holds no key, has no entry in the fold of any round.
\<close>

theorem transcript_update_entries:
  "chat_history (update_chat_history s)
      = chat_history s @ [NL]
          @ join [NL] (map (\<lambda>e. ''['' @ fst e @ '']: '' @ snd e @ [NL]) (new_messages s))
   \<and> distinct (map fst (new_messages s))
   \<and> fst ` set (new_messages s) = {n. \<exists>k \<in> fst ` set s. name_of_key k = Some n}
   \<and> (distinct (map fst s) \<and> (\<forall>k \<in> fst ` set s. k = [] \<or> last k \<noteq> NL)
        \<longrightarrow> map_of (new_messages s) n
              = (if n \<noteq> [] \<and> NL \<notin> set n then map_of s (n @ ''_message'') else None))
   \<and> (distinct (map fst init) \<and> (\<forall>k \<in> fst ` set init. k = [] \<or> last k \<noteq> NL)
        \<and> distinct (map identity (group_agents g @ [coordinator_agent g]))
        \<and> a \<in> set (group_agents g @ [coordinator_agent g])
        \<and> identity a \<noteq> [] \<and> NL \<notin> set (identity a)
        \<longrightarrow> (respond a i = Some m
               \<longrightarrow> map_of (new_messages (before_update g i init)) (identity a) = Some m)
          \<and> (respond a 0 = None
               \<longrightarrow> map_of (new_messages (before_update g 0 init)) (identity a)
                     = map_of init (output_key a))
          \<and> (respond a (Suc i) = None
               \<longrightarrow> map_of (new_messages (before_update g (Suc i) init)) (identity a)
                     = map_of (new_messages (before_update g i init)) (identity a)))
   \<and> ((\<forall>a \<in> set (group_agents g @ [coordinator_agent g]).
           identity a = n \<longrightarrow> (\<forall>r. respond a r = None))
        \<and> (\<forall>k \<in> fst ` set init. name_of_key k \<noteq> Some n)
        \<longrightarrow> n \<notin> fst ` set (new_messages (before_update g i init)))"
proof -
  have fmt: "format_entry = (\<lambda>e. ''['' @ fst e @ '']: '' @ snd e @ [NL])"
    by (rule ext) (simp add: format_entry_def)
  have c1: "chat_history (update_chat_history s)
      = chat_history s @ [NL]
          @ join [NL] (map (\<lambda>e. ''['' @ fst e @ '']: '' @ snd e @ [NL]) (new_messages s))"
    using chat_history_update[of s] unfolding round_text_def fmt .
  have c4: "distinct (map fst s) \<and> (\<forall>k \<in> fst ` set s. k = [] \<or> last k \<noteq> NL)
        \<longrightarrow> map_of (new_messages s) n
              = (if n \<noteq> [] \<and> NL \<notin> set n then map_of s (n @ ''_message'') else None)"
    using new_messages_lookup[of s n] by (intro impI) (elim conjE)
  have step: "map_of (agent_step b r t) k
        = (if k = output_key b
           then (case respond b r of None \<Rightarrow> map_of t k | Some m \<Rightarrow> Some m)
           else map_of t k)" for b r t k
    by (cases "respond b r") (simp_all add: agent_step_def apply_state_delta_single update_conv')
  have c5: "distinct (map fst init) \<and> (\<forall>k \<in> fst ` set init. k = [] \<or> last k \<noteq> NL)
        \<and> distinct (map identity (group_agents g @ [coordinator_agent g]))
        \<and> a \<in> set (group_agents g @ [coordinator_agent g])
        \<and> identity a \<noteq> [] \<and> NL \<notin> set (identity a)
        \<longrightarrow> (respond a i = Some m
               \<longrightarrow> map_of (new_messages (before_update g i init)) (identity a) = Some m)
          \<and> (respond a 0 = None
               \<longrightarrow> map_of (new_messages (before_update g 0 init)) (identity a)
                     = map_of init (output_key a))
          \<and> (respond a (Suc i) = None
               \<longrightarrow> map_of (new_messages (before_update g (Suc i) init)) (identity a)
                     = map_of (new_messages (before_update g i init)) (identity a))"
  proof (intro impI, elim conjE, intro conjI impI)
    assume h: "distinct (map fst init)" "\<forall>k \<in> fst ` set init. k = [] \<or> last k \<noteq> NL"
      "distinct (map identity (group_agents g @ [coordinator_agent g]))"
      "a \<in> set (group_agents g @ [coordinator_agent g])"
      "identity a \<noteq> []" "NL \<notin> set (identity a)"
    have keys: "distinct (map output_key (group_agents g @ [coordinator_agent g]))"
      using h(3) by (rule distinct_output_keys)
    have slot: "map_of (new_messages (before_update g r init)) (identity a)
        = map_of (before_update g r init) (output_key a)" for r
      using new_messages_lookup[OF distinct_before_update[OF h(1), of g r]
          keys_before_update_end[OF h(2), of g r], of "identity a"] h(5,6)
      by (simp add: output_key_def)
    have stored: "map_of (before_update g r init) (output_key a)
        = (case respond a r of
             None \<Rightarrow> map_of (session_after g r init) (output_key a)
           | Some m \<Rightarrow> Some m)" for r
      unfolding before_update_fold
      using map_of_fold_steps[of "\<lambda>a. agent_step a r" output_key "\<lambda>a. respond a r",
          OF step h(4) keys] .
    have e: "map_of (new_messages (before_update g r init)) (identity a)
        = (case respond a r of
             None \<Rightarrow> map_of (session_after g r init) (output_key a)
           | Some m \<Rightarrow> Some m)" for r
      using slot[of r] stored[of r] by (rule trans)
    have kept: "map_of (session_after g (Suc r) init) (output_key a)
        = map_of (before_update g r init) (output_key a)" for r
      unfolding session_after_Suc
      by (rule map_of_update_chat_history) (rule output_key_not_chat_history)
    {
      assume "respond a i = Some m"
      with e[of i] show "map_of (new_messages (before_update g i init)) (identity a) = Some m"
        by simp
    }
    {
      assume "respond a 0 = None"
      with e[of 0] show "map_of (new_messages (before_update g 0 init)) (identity a)
          = map_of init (output_key a)"
        by (simp add: session_after_0)
    }
    {
      assume "respond a (Suc i) = None"
      with e[of "Suc i"] show "map_of (new_messages (before_update g (Suc i) init)) (identity a)
          = map_of (new_messages (before_update g i init)) (identity a)"
        by (simp add: kept slot)
    }
  qed
  have c6: "(\<forall>a \<in> set (group_agents g @ [coordinator_agent g]).
           identity a = n \<longrightarrow> (\<forall>r. respond a r = None))
        \<and> (\<forall>k \<in> fst ` set init. name_of_key k \<noteq> Some n)
        \<longrightarrow> n \<notin> fst ` set (new_messages (before_update g i init))"
    using silent_agent_absent[of g n init i] by (intro impI) (elim conjE)
  from c1 new_messages_distinct[of s] new_messages_names[of s] c4 c5 c6 show ?thesis
    by (intro conjI)
qed

theorem transcript_update_entries_witness:
  "map_of (new_messages [(''chat_history'', ''q''), (''Bob_message'', ''old'')]) ''Bob'' = Some ''old''
   \<and> map_of (new_messages (before_update chat_undecided 0 [])) ''Alice'' = Some ''hi''
   \<and> map_of (new_messages (before_update chat_undecided 1 [])) ''Alice'' = Some ''hi''
   \<and> map_of (new_messages (before_update chat_undecided 0 [])) ''Bob'' = None
   \<and> ''Bob'' \<notin> fst ` set (new_messages (before_update chat_undecided 1 []))
   \<and> new_messages (before_update chat_undecided 0 [])
       = [(''Alice'', ''hi''), (''Coordinator'', ''go on'')]
   \<and> chat_history (update_chat_history [(''chat_history'', ''q''), (''Bob_message'', ''old'')])
       = ''q\<newline>[Bob]: old\<newline>''"
proof -
  have r6: "new_messages (before_update chat_undecided 0 [])
       = [(''Alice'', ''hi''), (''Coordinator'', ''go on'')]"
    by code_simp
  have r7: "chat_history (update_chat_history [(''chat_history'', ''q''), (''Bob_message'', ''old'')])
       = ''q\<newline>[Bob]: old\<newline>''"
    by code_simp
  have d: "distinct (map fst [(''chat_history'', ''q''), (''Bob_message'', ''old'')])
   \<and> (\<forall>k \<in> fst ` set [(''chat_history'', ''q''), (''Bob_message'', ''old'')]. k = [] \<or> last k \<noteq> NL)"
    by simp
  have q: "(\<forall>a \<in> set (group_agents chat_undecided @ [coordinator_agent chat_undecided]).
          identity a = ''Bob'' \<longrightarrow> (\<forall>r. respond a r = None))
   \<and> (\<forall>k \<in> fst ` set ([] :: state). name_of_key k \<noteq> Some ''Bob'')"
    by (simp add: chat_undecided_def alice_def bob_def undecided_def)
  have ha: "distinct (map fst ([] :: state))
      \<and> (\<forall>k \<in> fst ` set ([] :: state). k = [] \<or> last k \<noteq> NL)
      \<and> distinct (map identity (group_agents chat_undecided @ [coordinator_agent chat_undecided]))
      \<and> alice \<in> set (group_agents chat_undecided @ [coordinator_agent chat_undecided])
      \<and> identity alice \<noteq> [] \<and> NL \<notin> set (identity alice)"
    by (simp add: chat_undecided_def alice_def bob_def undecided_def)
  have hb: "distinct (map fst ([] :: state))
      \<and> (\<forall>k \<in> fst ` set ([] :: state). k = [] \<or> last k \<noteq> NL)
      \<and> distinct (map identity (group_agents chat_undecided @ [coordinator_agent chat_undecided]))
      \<and> bob \<in> set (group_agents chat_undecided @ [coordinator_agent chat_undecided])
      \<and> identity bob \<noteq> [] \<and> NL \<notin> set (identity bob)"
    by (simp add: chat_undecided_def alice_def bob_def undecided_def)
  have ia: "identity alice = ''Alice''" and ib: "identity bob = ''Bob''"
    by (simp_all add: alice_def bob_def)
  have ra0: "respond alice 0 = Some ''hi''" and ra1: "respond alice (Suc 0) = None"
    and rb0: "respond bob 0 = None"
    by (simp_all add: alice_def bob_def)
  have one: "Suc 0 = (1 :: nat)"
    by simp
  note t = transcript_update_entries[where s = "[(''chat_history'', ''q''), (''Bob_message'', ''old'')]"
      and n = "''Bob''" and g = chat_undecided and init = "[]" and i = 1]
  note ta = transcript_update_entries[where a = alice and g = chat_undecided and init = "[]"
      and i = 0 and m = "''hi''",
      THEN conjunct2, THEN conjunct2, THEN conjunct2, THEN conjunct2, THEN conjunct1, THEN mp, OF ha]
  note tb = transcript_update_entries[where a = bob and g = chat_undecided and init = "[]"
      and i = 0,
      THEN conjunct2, THEN conjunct2, THEN conjunct2, THEN conjunct2, THEN conjunct1, THEN mp, OF hb]
  have "map_of (new_messages [(''chat_history'', ''q''), (''Bob_message'', ''old'')]) ''Bob''
      = (if ''Bob'' \<noteq> [] \<and> NL \<notin> set ''Bob''
         then map_of [(''chat_history'', ''q''), (''Bob_message'', ''old'')] (''Bob'' @ ''_message'')
         else None)"
    using t[THEN conjunct2, THEN conjunct2, THEN conjunct2, THEN conjunct1] d by (rule mp)
  then have r1: "map_of (new_messages [(''chat_history'', ''q''), (''Bob_message'', ''old'')]) ''Bob'' = Some ''old''"
    by simp
  have r2: "map_of (new_messages (before_update chat_undecided 0 [])) ''Alice'' = Some ''hi''"
    using ta[THEN conjunct1, THEN mp, OF ra0] unfolding ia .
  have "map_of (new_messages (before_update chat_undecided (Suc 0) [])) ''Alice''
      = map_of (new_messages (before_update chat_undecided 0 [])) ''Alice''"
    using ta[THEN conjunct2, THEN conjunct2, THEN mp, OF ra1] unfolding ia .
  then have r3: "map_of (new_messages (before_update chat_undecided 1 [])) ''Alice'' = Some ''hi''"
    unfolding one r2 .
  have "map_of (new_messages (before_update chat_undecided 0 [])) ''Bob''
      = map_of ([] :: state) (output_key bob)"
    using tb[THEN conjunct2, THEN conjunct1, THEN mp, OF rb0] unfolding ib .
  then have r4: "map_of (new_messages (before_update chat_undecided 0 [])) ''Bob'' = None"
    by simp
  have r5: "''Bob'' \<notin> fst ` set (new_messages (before_update chat_undecided 1 []))"
    using t[THEN conjunct2, THEN conjunct2, THEN conjunct2, THEN conjunct2, THEN conjunct2] q
    by (rule mp)
  from r1 r2 r3 r4 r5 r6 r7 show ?thesis by (intro conjI)
qed

text \<open>
  The claim as worded fails: in round 1 of the run below only the coordinator produces a
  message, and the fold of round 1 also has the message Alice produced in round 0. The
  last two lines show why the statement above names the keys and identities it covers:
  the pattern reads a key that ends in a line feed as the key before the line feed, and
  the key \<open>_message\<close> has no identity.
\<close>

theorem transcript_update_counterexample:
  "respond alice 1 = None
   \<and> produced chat_undecided 1 = [(''Coordinator'', ''go on'')]
   \<and> new_messages (before_update chat_undecided 1 [])
       = [(''Alice'', ''hi''), (''Coordinator'', ''go on'')]
   \<and> new_messages [(''Alice_message\<newline>'', ''x'')] = [(''Alice'', ''x'')]
   \<and> new_messages [(''_message'', ''x'')] = []"
  by code_simp

lemma fold_collect_update_unnamed:
  "name_of_key k = None \<Longrightarrow>
   fold (\<lambda>(k, v) d. case name_of_key k of None \<Rightarrow> d | Some n \<Rightarrow> AList.update n v d)
        (AList.update k v s) d
   = fold (\<lambda>(k, v) d. case name_of_key k of None \<Rightarrow> d | Some n \<Rightarrow> AList.update n v d) s d"
  by (induction s arbitrary: d) auto

lemma round_text_update_chat_history:
  "round_text (update_chat_history s) = round_text s"
  by (simp add: round_text_def new_messages_def update_chat_history_eq
      fold_collect_update_unnamed name_of_key_chat_history)

lemma new_messages_update_chat_history:
  "new_messages (update_chat_history s) = new_messages s"
  by (simp add: new_messages_def update_chat_history_eq
      fold_collect_update_unnamed name_of_key_chat_history)

lemma chat_history_update_twice:
  "chat_history (update_chat_history (update_chat_history s))
     = chat_history s @ [NL] @ round_text s @ [NL] @ round_text s"
  by (simp add: chat_history_update round_text_update_chat_history)

text \<open>
  Claim C6, as the code has it. The transcript updater is not idempotent. It keeps no
  record of what it has appended: run a second time on the session the first run left,
  with no agent invoked in between, it folds the same entries, since its own write to
  \<open>chat_history\<close> changes no message key, and appends them again behind a further
  line feed. The entries of the two runs are the same list; the transcript holds them
  twice, and the session after two runs is never the session after one.
\<close>

theorem transcript_update_twice:
  "new_messages (update_chat_history s) = new_messages s
   \<and> chat_history (update_chat_history s)
       = chat_history s @ [NL] @ join [NL] (map format_entry (new_messages s))
   \<and> chat_history (update_chat_history (update_chat_history s))
       = chat_history s @ [NL] @ join [NL] (map format_entry (new_messages s))
           @ [NL] @ join [NL] (map format_entry (new_messages s))
   \<and> update_chat_history (update_chat_history s) \<noteq> update_chat_history s"
proof -
  have once: "chat_history (update_chat_history s)
       = chat_history s @ [NL] @ join [NL] (map format_entry (new_messages s))"
    by (simp add: chat_history_def update_chat_history_def update_chat_history_delta_def
        apply_state_delta_single state_get_update_same updated_chat_history_def round_text_def)
  have twice: "chat_history (update_chat_history (update_chat_history s))
       = chat_history s @ [NL] @ join [NL] (map format_entry (new_messages s))
           @ [NL] @ join [NL] (map format_entry (new_messages s))"
    using chat_history_update_twice[of s] by (simp add: round_text_def)
  have "chat_history (update_chat_history (update_chat_history s))
      \<noteq> chat_history (update_chat_history s)"
    unfolding once twice by simp
  then have "update_chat_history (update_chat_history s) \<noteq> update_chat_history s"
    by auto
  with once twice new_messages_update_chat_history[of s] show ?thesis
    by (intro conjI)
qed

text \<open>
  The claim as worded fails: two runs on a session with one message leave the entry twice
  in the transcript.
\<close>

theorem transcript_update_twice_counterexample:
  "new_messages [(''chat_history'', ''h''), (''Alice_message'', ''hi'')] = [(''Alice'', ''hi'')]
   \<and> chat_history (update_chat_history [(''chat_history'', ''h''), (''Alice_message'', ''hi'')])
       = ''h\<newline>[Alice]: hi\<newline>''
   \<and> chat_history (update_chat_history
         (update_chat_history [(''chat_history'', ''h''), (''Alice_message'', ''hi'')]))
       = ''h\<newline>[Alice]: hi\<newline>\<newline>[Alice]: hi\<newline>''"
  by code_simp

section \<open>The round loop\<close>

lemma round_controller_unfold:
  "round_controller g i s =
     (if check_consensus (run_round g i s)
      then Some \<lparr>final = CONSENSUS_REACHED, rounds = Suc i, session = run_round g i s\<rparr>
      else if Suc i = max_iterations g
      then Some \<lparr>final = EXHAUSTED, rounds = Suc i, session = run_round g i s\<rparr>
      else round_controller g (Suc i) (run_round g i s))"
  by (subst round_controller.simps) (simp add: Let_def)

lemma round_controller_consensus:
  assumes "\<forall>j<k. \<not> check_consensus (rounds_from g i (Suc j) s)"
    and "check_consensus (rounds_from g i (Suc k) s)"
    and "\<forall>j<k. Suc (i + j) \<noteq> max_iterations g"
  shows "round_controller g i s
     = Some \<lparr>final = CONSENSUS_REACHED, rounds = Suc (i + k), session = rounds_from g i (Suc k) s\<rparr>"
  using assms
proof (induction k arbitrary: i s)
  case 0
  then show ?case
    by (subst round_controller_unfold) simp
next
  case (Suc k)
  from Suc.prems(1) have first: "\<not> check_consensus (run_round g i s)"
    by (metis rounds_from.simps(1) rounds_from.simps(2) zero_less_Suc)
  from Suc.prems(3) have bound: "Suc i \<noteq> max_iterations g"
    by (metis add.right_neutral zero_less_Suc)
  have a: "\<forall>j<k. \<not> check_consensus (rounds_from g (Suc i) (Suc j) (run_round g i s))"
    using Suc.prems(1) by auto
  have b: "check_consensus (rounds_from g (Suc i) (Suc k) (run_round g i s))"
    using Suc.prems(2) by simp
  have c: "\<forall>j<k. Suc (Suc i + j) \<noteq> max_iterations g"
    using Suc.prems(3) by (metis Suc_less_eq add_Suc_right add_Suc_shift)
  have "round_controller g i s = round_controller g (Suc i) (run_round g i s)"
    using first bound by (subst round_controller_unfold) simp
  also have "\<dots> = Some \<lparr>final = CONSENSUS_REACHED, rounds = Suc (Suc i + k),
        session = rounds_from g (Suc i) (Suc k) (run_round g i s)\<rparr>"
    using a b c by (rule Suc.IH)
  finally show ?case by simp
qed

lemma round_controller_exhausted:
  assumes "\<forall>j\<le>k. \<not> check_consensus (rounds_from g i (Suc j) s)"
    and "max_iterations g = Suc (i + k)"
  shows "round_controller g i s
     = Some \<lparr>final = EXHAUSTED, rounds = Suc (i + k), session = rounds_from g i (Suc k) s\<rparr>"
  using assms
proof (induction k arbitrary: i s)
  case 0
  then show ?case
    by (subst round_controller_unfold) simp
next
  case (Suc k)
  from Suc.prems(1) have first: "\<not> check_consensus (run_round g i s)"
    by (metis rounds_from.simps(1) rounds_from.simps(2) le0)
  from Suc.prems(2) have bound: "Suc i \<noteq> max_iterations g"
    by simp
  have a: "\<forall>j\<le>k. \<not> check_consensus (rounds_from g (Suc i) (Suc j) (run_round g i s))"
    using Suc.prems(1) by auto
  have b: "max_iterations g = Suc (Suc i + k)"
    using Suc.prems(2) by simp
  have "round_controller g i s = round_controller g (Suc i) (run_round g i s)"
    using first bound by (subst round_controller_unfold) simp
  also have "\<dots> = Some \<lparr>final = EXHAUSTED, rounds = Suc (Suc i + k),
        session = rounds_from g (Suc i) (Suc k) (run_round g i s)\<rparr>"
    using a b by (rule Suc.IH)
  finally show ?case by simp
qed

lemma round_controller_bounded:
  "i < max_iterations g \<Longrightarrow>
     \<exists>r. round_controller g i s = Some r \<and> i < rounds r \<and> rounds r \<le> max_iterations g"
proof (induction "max_iterations g - i" arbitrary: i s)
  case 0
  then show ?case by simp
next
  case (Suc d)
  show ?case
  proof (cases "check_consensus (run_round g i s)")
    case True
    then show ?thesis
      using Suc.prems by (subst round_controller_unfold) simp
  next
    case False
    show ?thesis
    proof (cases "Suc i = max_iterations g")
      case True
      then show ?thesis
        using False by (subst round_controller_unfold) simp
    next
      case ne: False
      with Suc.prems have lt: "Suc i < max_iterations g" by simp
      from Suc.hyps(2) have "d = max_iterations g - Suc i" by simp
      from Suc.hyps(1)[OF this lt, of "run_round g i s"]
      obtain r where "round_controller g (Suc i) (run_round g i s) = Some r"
        "Suc i < rounds r" "rounds r \<le> max_iterations g"
        by blast
      then show ?thesis
        using False ne by (subst round_controller_unfold) simp
    qed
  qed
qed

lemma round_controller_result:
  assumes "round_controller g i s = Some r"
  shows "\<exists>k. rounds r = Suc (i + k) \<and> session r = rounds_from g i (Suc k) s
       \<and> (final r = CONSENSUS_REACHED \<longrightarrow> check_consensus (session r))
       \<and> (final r = EXHAUSTED \<longrightarrow> rounds r = max_iterations g)"
proof -
  let ?P = "\<lambda>g i s r.
      \<exists>k. rounds r = Suc (i + k) \<and> session r = rounds_from g i (Suc k) s
       \<and> (final r = CONSENSUS_REACHED \<longrightarrow> check_consensus (session r))
       \<and> (final r = EXHAUSTED \<longrightarrow> rounds r = max_iterations g)"
  have step: "?P g i s r"
    if IH: "\<And>g i s r. f g i s = Some r \<Longrightarrow> ?P g i s r"
      and body: "(let s' = run_round g i s
          in if check_consensus s'
             then Some \<lparr>final = CONSENSUS_REACHED, rounds = Suc i, session = s'\<rparr>
             else if Suc i = max_iterations g
             then Some \<lparr>final = EXHAUSTED, rounds = Suc i, session = s'\<rparr>
             else f g (Suc i) s') = Some r"
    for f g i s r
  proof (cases "check_consensus (run_round g i s)")
    case True
    with body have "r = \<lparr>final = CONSENSUS_REACHED, rounds = Suc i, session = run_round g i s\<rparr>"
      by (simp add: Let_def)
    then show ?thesis using True by (intro exI[where x = "0::nat"]) simp
  next
    case False
    show ?thesis
    proof (cases "Suc i = max_iterations g")
      case True
      with False body have "r = \<lparr>final = EXHAUSTED, rounds = Suc i, session = run_round g i s\<rparr>"
        by (simp add: Let_def)
      then show ?thesis using True by (intro exI[where x = "0::nat"]) simp
    next
      case ne: False
      with False body have "f g (Suc i) (run_round g i s) = Some r"
        by (simp add: Let_def)
      from IH[OF this] obtain k where
        "rounds r = Suc (Suc i + k)" "session r = rounds_from g (Suc i) (Suc k) (run_round g i s)"
        "final r = CONSENSUS_REACHED \<longrightarrow> check_consensus (session r)"
        "final r = EXHAUSTED \<longrightarrow> rounds r = max_iterations g"
        by blast
      then show ?thesis by (intro exI[where x = "Suc k"]) simp
    qed
  qed
  show ?thesis
    by (rule round_controller.raw_induct[where P = ?P, OF step assms])
qed

lemma coordinator_key_iff:
  "output_key a = ''Coordinator_message'' \<longleftrightarrow> identity a = ''Coordinator''"
proof -
  have "''Coordinator_message'' = ''Coordinator'' @ ''_message''"
    by simp
  then have "output_key a = ''Coordinator_message'' \<longleftrightarrow>
      identity a @ ''_message'' = ''Coordinator'' @ ''_message''"
    by (simp only: output_key_def)
  then show ?thesis
    by (simp only: append_same_eq)
qed

lemma coordinator_message_update_chat_history:
  "coordinator_message (update_chat_history s) = coordinator_message s"
  by (simp add: coordinator_message_def update_chat_history_eq state_get_update_other)

lemma coordinator_message_run_round:
  assumes "identity (coordinator_agent g) = ''Coordinator''"
    and "respond (coordinator_agent g) i = Some m"
  shows "coordinator_message (run_round g i s) = m"
proof -
  have "output_key (coordinator_agent g) = ''Coordinator_message''"
    using assms(1) by (simp only: coordinator_key_iff)
  then have "coordinator_message (coordinator_step g i (working_group g i s)) = m"
    using assms(2)
    by (simp add: coordinator_step_def agent_step_def apply_state_delta_single
        coordinator_message_def state_get_update_same)
  then show ?thesis
    by (simp add: run_round_def coordinator_message_update_chat_history)
qed

lemma session_after_Suc_run_round:
  "session_after g (Suc n) init = run_round g n (session_after g n init)"
  using rounds_from_Suc[of g 0 n init] by (simp add: session_after_def)

lemma coordinator_slot_untouched:
  assumes "identity (coordinator_agent g) \<noteq> ''Coordinator''"
    and "\<forall>a \<in> set (group_agents g). identity a \<noteq> ''Coordinator''"
    and "map_of init ''Coordinator_message'' = None"
  shows "map_of (session_after g n init) ''Coordinator_message'' = None"
proof (rule ccontr)
  assume "map_of (session_after g n init) ''Coordinator_message'' \<noteq> None"
  then have "''Coordinator_message'' \<in> fst ` set (session_after g n init)"
    by (simp add: map_of_eq_None_iff)
  from keys_session_after[OF this]
  consider "''Coordinator_message'' \<in> fst ` set init"
    | "''Coordinator_message'' = ''chat_history''"
    | a where "a \<in> set (group_agents g @ [coordinator_agent g])"
        "''Coordinator_message'' = output_key a"
    by blast
  then show False
  proof cases
    case 1
    with assms(3) show False by (simp add: map_of_eq_None_iff)
  next
    case 2
    then show False by simp
  next
    case 3
    from 3(2) have "identity a = ''Coordinator''"
      using coordinator_key_iff[of a] by simp
    with 3(1) assms(1,2) show False by auto
  qed
qed

text \<open>
  Claim C2, as the code has it. The consensus check reads the session value under the
  key \<open>Coordinator_message\<close>, which is where a coordinator of the identity
  \<open>Coordinator\<close> stores its message. If that value holds the marker after the coordinator
  step of round \<open>k\<close>, in any casing and in the self-closing or the paired form, and the
  loop reaches round \<open>k\<close> (no earlier check escalated, and \<open>k\<close> is within the bound, or
  there is no bound), then the check of round \<open>k\<close> yields the escalation signal and the
  loop ends in \<open>CONSENSUS_REACHED\<close> after exactly \<open>k + 1\<close> rounds.
\<close>

theorem consensus_stops_loop:
  "(spec_marker_present (coordinator_message (session_after g (Suc k) init))
      \<and> (\<forall>j<k. \<not> check_consensus (session_after g (Suc j) init))
      \<and> (max_iterations g = 0 \<or> k < max_iterations g)
    \<longrightarrow> check_consensus (session_after g (Suc k) init)
        \<and> run_group_chat g init
            = Some \<lparr>final = CONSENSUS_REACHED, rounds = Suc k,
                    session = session_after g (Suc k) init\<rparr>)
   \<and> (identity (coordinator_agent g) = ''Coordinator''
        \<and> respond (coordinator_agent g) k = Some m
      \<longrightarrow> coordinator_message (session_after g (Suc k) init) = m)"
proof (intro conjI impI)
  assume h: "spec_marker_present (coordinator_message (session_after g (Suc k) init))
      \<and> (\<forall>j<k. \<not> check_consensus (session_after g (Suc j) init))
      \<and> (max_iterations g = 0 \<or> k < max_iterations g)"
  then have "check_tag_presence (coordinator_message (session_after g (Suc k) init)) ''consensus_reached''"
    using spec_marker_detected by blast
  then show c: "check_consensus (session_after g (Suc k) init)"
    by (simp add: check_consensus_def coordinator_message_def)
  have a: "\<forall>j<k. \<not> check_consensus (rounds_from g 0 (Suc j) init)"
    using h by (simp add: session_after_def)
  have b: "check_consensus (rounds_from g 0 (Suc k) init)"
    using c by (simp add: session_after_def)
  have d: "\<forall>j<k. Suc (0 + j) \<noteq> max_iterations g"
    using h by auto
  from round_controller_consensus[OF a b d]
  show "run_group_chat g init
      = Some \<lparr>final = CONSENSUS_REACHED, rounds = Suc k, session = session_after g (Suc k) init\<rparr>"
    by (simp add: run_group_chat_def session_after_def)
next
  assume "identity (coordinator_agent g) = ''Coordinator''
        \<and> respond (coordinator_agent g) k = Some m"
  then show "coordinator_message (session_after g (Suc k) init) = m"
    using coordinator_message_run_round[of g k m "session_after g k init"]
    by (simp add: session_after_Suc_run_round)
qed

theorem consensus_stops_loop_witness:
  "spec_marker_present (coordinator_message (session_after chat_decided 2 []))
   \<and> check_consensus (session_after chat_decided 2 [])
   \<and> run_group_chat chat_decided []
       = Some \<lparr>final = CONSENSUS_REACHED, rounds = 2, session = session_after chat_decided 2 []\<rparr>
   \<and> coordinator_message (session_after chat_decided 2 [])
       = ''<Consensus_Reached/> FINAL ANSWER: 42''"
proof -
  have h1: "spec_marker_present (coordinator_message (session_after chat_decided (Suc 1) []))"
    by code_simp
  have "\<not> check_consensus (session_after chat_decided (Suc 0) [])"
    by code_simp
  then have h2: "\<forall>j<1. \<not> check_consensus (session_after chat_decided (Suc j) [])"
    by simp
  have h3: "max_iterations chat_decided = 0 \<or> 1 < max_iterations chat_decided"
    by (simp add: chat_decided_def)
  have h4: "identity (coordinator_agent chat_decided) = ''Coordinator''
      \<and> respond (coordinator_agent chat_decided) 1 = Some ''<Consensus_Reached/> FINAL ANSWER: 42''"
    by (simp add: chat_decided_def decided_def)
  note t = consensus_stops_loop[where g = chat_decided and k = 1 and init = "[]"
      and m = "''<Consensus_Reached/> FINAL ANSWER: 42''"]
  from t h1 h2 h3 have "check_consensus (session_after chat_decided (Suc 1) [])
      \<and> run_group_chat chat_decided []
          = Some \<lparr>final = CONSENSUS_REACHED, rounds = Suc 1,
                  session = session_after chat_decided (Suc 1) []\<rparr>"
    by blast
  moreover from t h4 have "coordinator_message (session_after chat_decided (Suc 1) [])
      = ''<Consensus_Reached/> FINAL ANSWER: 42''"
    by blast
  moreover have "Suc 1 = (2 :: nat)"
    by simp
  ultimately show ?thesis
    using h1 by (simp only:)
qed

text \<open>
  The claim as worded fails for a coordinator that stores its message under another key:
  its message holds the marker in every round, no check escalates, and the loop ends by
  exhaustion.
\<close>

theorem consensus_stops_loop_counterexample:
  "respond (coordinator_agent chat_lead) 0 = Some ''<consensus_reached/>''
   \<and> spec_marker_present ''<consensus_reached/>''
   \<and> \<not> check_consensus (session_after chat_lead 1 [])
   \<and> run_group_chat chat_lead []
       = Some \<lparr>final = EXHAUSTED, rounds = 2, session = session_after chat_lead 2 []\<rparr>"
  by code_simp

lemma check_tag_presence_forms:
  "check_tag_presence t ''consensus_reached'' \<longleftrightarrow>
     (\<exists>pre u ws post. t = pre @ u @ ws @ ''/>'' @ post
         \<and> ci_eq u ''<consensus_reached'' \<and> list_all isspace ws)
     \<or> (\<exists>pre u post. t = pre @ u @ ''>'' @ post \<and> ci_eq u ''<consensus_reached'')"
proof -
  have tag: "''<'' @ ''consensus_reached'' = ''<consensus_reached''"
    by simp
  show ?thesis
    using check_tag_presence_iff[of t "''consensus_reached''"] unfolding tag .
qed

lemma round_controller_first_consensus:
  assumes "check_consensus (session_after g (Suc k) init)" and "k < max_iterations g"
  shows "\<exists>r. run_group_chat g init = Some r \<and> final r = CONSENSUS_REACHED \<and> rounds r \<le> Suc k"
proof -
  from assms(1) have "\<exists>n. check_consensus (session_after g (Suc n) init)"
    by (rule exI)
  then have "\<exists>n. check_consensus (session_after g (Suc n) init)
      \<and> (\<forall>j<n. \<not> check_consensus (session_after g (Suc j) init))"
    by (subst (asm) exists_least_iff)
  then obtain n where n: "check_consensus (session_after g (Suc n) init)"
    and least: "\<forall>j<n. \<not> check_consensus (session_after g (Suc j) init)"
    by (elim exE conjE)
  have le: "n \<le> k"
  proof (rule ccontr)
    assume "\<not> n \<le> k"
    then have "k < n" by simp
    with least assms(1) show False by simp
  qed
  have a: "\<forall>j<n. \<not> check_consensus (rounds_from g 0 (Suc j) init)"
    using least by (simp add: session_after_def)
  have b: "check_consensus (rounds_from g 0 (Suc n) init)"
    using n by (simp add: session_after_def)
  have c: "\<forall>j<n. Suc (0 + j) \<noteq> max_iterations g"
    using le assms(2) by auto
  from round_controller_consensus[OF a b c] le show ?thesis
    by (simp add: run_group_chat_def)
qed

text \<open>
  Claim C3, as the code has it. The bound is at least 1. The coordinator's message of a
  round is the session value under \<open>Coordinator_message\<close> after that round: the value
  the check reads, and the place where a coordinator of the identity \<open>Coordinator\<close>
  stores what it produces. If in none of the rounds \<open>0..max_iterations-1\<close> that message
  holds, in any casing, \<open><consensus_reached\<close> followed by optional white space and
  \<open>/>\<close>, or the opening tag \<open><consensus_reached>\<close>, the loop executes exactly
  \<open>max_iterations\<close> rounds and ends in \<open>EXHAUSTED\<close>. If the message of some round
  within the bound does hold one of them, the loop ends in \<open>CONSENSUS_REACHED\<close> no
  later than that round. Every run ends, after at least one and at most
  \<open>max_iterations\<close> rounds. A round is the fan-out, the coordinator and the transcript
  update, followed by the check.
\<close>

theorem exhaustion_after_max_iterations:
  "(0 < max_iterations g
      \<and> (\<forall>j<max_iterations g.
            \<not> ((\<exists>pre u ws post. coordinator_message (session_after g (Suc j) init)
                                     = pre @ u @ ws @ ''/>'' @ post
                    \<and> ci_eq u ''<consensus_reached'' \<and> list_all isspace ws)
               \<or> (\<exists>pre u post. coordinator_message (session_after g (Suc j) init)
                                     = pre @ u @ ''>'' @ post
                    \<and> ci_eq u ''<consensus_reached'')))
    \<longrightarrow> run_group_chat g init
          = Some \<lparr>final = EXHAUSTED, rounds = max_iterations g,
                  session = session_after g (max_iterations g) init\<rparr>)
   \<and> (k < max_iterations g
      \<and> ((\<exists>pre u ws post. coordinator_message (session_after g (Suc k) init)
                               = pre @ u @ ws @ ''/>'' @ post
              \<and> ci_eq u ''<consensus_reached'' \<and> list_all isspace ws)
         \<or> (\<exists>pre u post. coordinator_message (session_after g (Suc k) init)
                               = pre @ u @ ''>'' @ post
              \<and> ci_eq u ''<consensus_reached''))
    \<longrightarrow> (\<exists>r. run_group_chat g init = Some r \<and> final r = CONSENSUS_REACHED
            \<and> rounds r \<le> Suc k))
   \<and> (identity (coordinator_agent g) = ''Coordinator''
        \<and> respond (coordinator_agent g) i = Some m
    \<longrightarrow> coordinator_message (session_after g (Suc i) init) = m)
   \<and> (0 < max_iterations g
    \<longrightarrow> (\<exists>r. run_group_chat g init = Some r \<and> 0 < rounds r \<and> rounds r \<le> max_iterations g
            \<and> session r = session_after g (rounds r) init))
   \<and> session_after g (Suc i) init
       = update_chat_history (coordinator_step g i (working_group g i (session_after g i init)))"
proof -
  have forms: "check_consensus t \<longleftrightarrow>
     (\<exists>pre u ws post. coordinator_message t = pre @ u @ ws @ ''/>'' @ post
         \<and> ci_eq u ''<consensus_reached'' \<and> list_all isspace ws)
     \<or> (\<exists>pre u post. coordinator_message t = pre @ u @ ''>'' @ post
         \<and> ci_eq u ''<consensus_reached'')" for t
    unfolding check_consensus_def coordinator_message_def
    by (rule check_tag_presence_forms)
  show ?thesis
  proof (intro conjI impI)
    assume h: "0 < max_iterations g
        \<and> (\<forall>j<max_iterations g.
              \<not> ((\<exists>pre u ws post. coordinator_message (session_after g (Suc j) init)
                                       = pre @ u @ ws @ ''/>'' @ post
                      \<and> ci_eq u ''<consensus_reached'' \<and> list_all isspace ws)
                 \<or> (\<exists>pre u post. coordinator_message (session_after g (Suc j) init)
                                       = pre @ u @ ''>'' @ post
                      \<and> ci_eq u ''<consensus_reached'')))"
    then have none: "\<forall>j<max_iterations g. \<not> check_consensus (session_after g (Suc j) init)"
      unfolding forms by (rule conjunct2)
    from h obtain n where n: "max_iterations g = Suc (0 + n)"
      by (cases "max_iterations g") auto
    have "\<forall>j\<le>n. \<not> check_consensus (rounds_from g 0 (Suc j) init)"
      using none n by (simp add: session_after_def)
    from round_controller_exhausted[OF this n]
    show "run_group_chat g init
        = Some \<lparr>final = EXHAUSTED, rounds = max_iterations g,
                session = session_after g (max_iterations g) init\<rparr>"
      using n by (simp add: run_group_chat_def session_after_def)
  next
    assume h: "k < max_iterations g
        \<and> ((\<exists>pre u ws post. coordinator_message (session_after g (Suc k) init)
                                 = pre @ u @ ws @ ''/>'' @ post
                \<and> ci_eq u ''<consensus_reached'' \<and> list_all isspace ws)
           \<or> (\<exists>pre u post. coordinator_message (session_after g (Suc k) init)
                                 = pre @ u @ ''>'' @ post
                \<and> ci_eq u ''<consensus_reached''))"
    then have "check_consensus (session_after g (Suc k) init)"
      unfolding forms by (rule conjunct2)
    moreover from h have "k < max_iterations g"
      by (rule conjunct1)
    ultimately show "\<exists>r. run_group_chat g init = Some r \<and> final r = CONSENSUS_REACHED
              \<and> rounds r \<le> Suc k"
      by (rule round_controller_first_consensus)
  next
    assume "identity (coordinator_agent g) = ''Coordinator''
          \<and> respond (coordinator_agent g) i = Some m"
    then show "coordinator_message (session_after g (Suc i) init) = m"
      using coordinator_message_run_round[of g i m "session_after g i init"]
      by (simp add: session_after_Suc_run_round)
  next
    assume "0 < max_iterations g"
    from round_controller_bounded[OF this, of init]
    obtain r where r: "round_controller g 0 init = Some r" "0 < rounds r" "rounds r \<le> max_iterations g"
      by blast
    from round_controller_result[OF r(1)]
    have "session r = session_after g (rounds r) init"
      by (auto simp: session_after_def)
    with r show "\<exists>r. run_group_chat g init = Some r \<and> 0 < rounds r \<and> rounds r \<le> max_iterations g
              \<and> session r = session_after g (rounds r) init"
      by (simp add: run_group_chat_def)
  next
    show "session_after g (Suc i) init
         = update_chat_history (coordinator_step g i (working_group g i (session_after g i init)))"
      by (simp add: session_after_Suc before_update_def)
  qed
qed

theorem exhaustion_after_max_iterations_witness:
  "run_group_chat chat_undecided []
       = Some \<lparr>final = EXHAUSTED, rounds = 2, session = session_after chat_undecided 2 []\<rparr>
   \<and> coordinator_message (session_after chat_undecided 1 []) = ''go on''
   \<and> coordinator_message (session_after chat_decided 2 []) = ''<Consensus_Reached/> FINAL ANSWER: 42''
   \<and> (\<exists>r. run_group_chat chat_decided [] = Some r \<and> final r = CONSENSUS_REACHED
          \<and> rounds r \<le> 2)
   \<and> run_group_chat chat_decided []
       = Some \<lparr>final = CONSENSUS_REACHED, rounds = 2, session = session_after chat_decided 2 []\<rparr>"
proof -
  have r5: "run_group_chat chat_decided []
       = Some \<lparr>final = CONSENSUS_REACHED, rounds = 2, session = session_after chat_decided 2 []\<rparr>"
    by code_simp
  have m: "max_iterations chat_undecided = 2"
    by (simp add: chat_undecided_def)
  have two: "Suc 1 = (2 :: nat)"
    by simp
  have c: "identity (coordinator_agent chat_undecided) = ''Coordinator''
      \<and> respond (coordinator_agent chat_undecided) j = Some ''go on''" for j
    by (simp add: chat_undecided_def undecided_def)
  have msg: "coordinator_message (session_after chat_undecided (Suc j) []) = ''go on''" for j
    using exhaustion_after_max_iterations[where g = chat_undecided and init = "[]" and i = j
        and m = "''go on''", THEN conjunct2, THEN conjunct2, THEN conjunct1] c[of j]
    by (rule mp)
  have "\<not> check_tag_presence ''go on'' ''consensus_reached''"
    by code_simp
  then have nf: "\<not> ((\<exists>pre u ws post. ''go on'' = pre @ u @ ws @ ''/>'' @ post
                    \<and> ci_eq u ''<consensus_reached'' \<and> list_all isspace ws)
               \<or> (\<exists>pre u post. ''go on'' = pre @ u @ ''>'' @ post
                    \<and> ci_eq u ''<consensus_reached''))"
    unfolding check_tag_presence_forms .
  have quiet: "\<not> ((\<exists>pre u ws post. coordinator_message (session_after chat_undecided (Suc j) [])
                                     = pre @ u @ ws @ ''/>'' @ post
                    \<and> ci_eq u ''<consensus_reached'' \<and> list_all isspace ws)
               \<or> (\<exists>pre u post. coordinator_message (session_after chat_undecided (Suc j) [])
                                     = pre @ u @ ''>'' @ post
                    \<and> ci_eq u ''<consensus_reached''))" for j
    unfolding msg[of j] by (rule nf)
  have h1: "0 < max_iterations chat_undecided
      \<and> (\<forall>j<max_iterations chat_undecided.
            \<not> ((\<exists>pre u ws post. coordinator_message (session_after chat_undecided (Suc j) [])
                                     = pre @ u @ ws @ ''/>'' @ post
                    \<and> ci_eq u ''<consensus_reached'' \<and> list_all isspace ws)
               \<or> (\<exists>pre u post. coordinator_message (session_after chat_undecided (Suc j) [])
                                     = pre @ u @ ''>'' @ post
                    \<and> ci_eq u ''<consensus_reached'')))"
    using quiet by (intro conjI allI impI) (simp add: m)
  have "run_group_chat chat_undecided []
      = Some \<lparr>final = EXHAUSTED, rounds = max_iterations chat_undecided,
              session = session_after chat_undecided (max_iterations chat_undecided) []\<rparr>"
    using exhaustion_after_max_iterations[where g = chat_undecided and init = "[]",
        THEN conjunct1] h1
    by (rule mp)
  then have r1: "run_group_chat chat_undecided []
       = Some \<lparr>final = EXHAUSTED, rounds = 2, session = session_after chat_undecided 2 []\<rparr>"
    unfolding m .
  have r2: "coordinator_message (session_after chat_undecided 1 []) = ''go on''"
    using msg[of 0] by simp
  have d: "identity (coordinator_agent chat_decided) = ''Coordinator''
      \<and> respond (coordinator_agent chat_decided) 1 = Some ''<Consensus_Reached/> FINAL ANSWER: 42''"
    by (simp add: chat_decided_def decided_def)
  have dm: "coordinator_message (session_after chat_decided (Suc 1) [])
      = ''<Consensus_Reached/> FINAL ANSWER: 42''"
    using exhaustion_after_max_iterations[where g = chat_decided and init = "[]" and i = 1
        and m = "''<Consensus_Reached/> FINAL ANSWER: 42''",
        THEN conjunct2, THEN conjunct2, THEN conjunct1] d
    by (rule mp)
  have "check_tag_presence ''<Consensus_Reached/> FINAL ANSWER: 42'' ''consensus_reached''"
    by code_simp
  then have f: "(\<exists>pre u ws post. ''<Consensus_Reached/> FINAL ANSWER: 42'' = pre @ u @ ws @ ''/>'' @ post
                    \<and> ci_eq u ''<consensus_reached'' \<and> list_all isspace ws)
               \<or> (\<exists>pre u post. ''<Consensus_Reached/> FINAL ANSWER: 42'' = pre @ u @ ''>'' @ post
                    \<and> ci_eq u ''<consensus_reached'')"
    unfolding check_tag_presence_forms .
  have lt: "1 < max_iterations chat_decided"
    by (simp add: chat_decided_def)
  have h2: "1 < max_iterations chat_decided
      \<and> ((\<exists>pre u ws post. coordinator_message (session_after chat_decided (Suc 1) [])
                               = pre @ u @ ws @ ''/>'' @ post
              \<and> ci_eq u ''<consensus_reached'' \<and> list_all isspace ws)
         \<or> (\<exists>pre u post. coordinator_message (session_after chat_decided (Suc 1) [])
                               = pre @ u @ ''>'' @ post
              \<and> ci_eq u ''<consensus_reached''))"
    unfolding dm using lt f by (rule conjI)
  have "\<exists>r. run_group_chat chat_decided [] = Some r \<and> final r = CONSENSUS_REACHED
          \<and> rounds r \<le> Suc 1"
    using exhaustion_after_max_iterations[where g = chat_decided and init = "[]" and k = 1,
        THEN conjunct2, THEN conjunct1] h2
    by (rule mp)
  then have r4: "\<exists>r. run_group_chat chat_decided [] = Some r \<and> final r = CONSENSUS_REACHED
          \<and> rounds r \<le> 2"
    unfolding two .
  have r3: "coordinator_message (session_after chat_decided 2 []) = ''<Consensus_Reached/> FINAL ANSWER: 42''"
    using dm unfolding two .
  from r1 r2 r3 r4 r5 show ?thesis
    by (intro conjI)
qed

text \<open>
  The claim as worded fails: the coordinator's message below holds the opening tag without
  the closing tag, which is the marker in neither form, and the loop ends by consensus
  in the first of three rounds.
\<close>

theorem exhaustion_after_max_iterations_counterexample:
  "respond (coordinator_agent chat_hasty) 0 = Some ''<consensus_reached> not yet''
   \<and> coordinator_message (session_after chat_hasty 1 []) = ''<consensus_reached> not yet''
   \<and> \<not> spec_marker_present ''<consensus_reached> not yet''
   \<and> max_iterations chat_hasty = 3
   \<and> run_group_chat chat_hasty []
       = Some \<lparr>final = CONSENSUS_REACHED, rounds = 1, session = session_after chat_hasty 1 []\<rparr>"
  by code_simp

text \<open>
  Claim C9, as the code has it. The consensus check reads exactly the key
  \<open>Coordinator_message\<close>, with the empty text as default. If the coordinator stores its
  message under another key, no participant has the identity \<open>Coordinator\<close>, and the
  initial session does not hold the key, then the check evaluates the empty text in
  every round, never escalates, and a run that ends can only end by exhaustion, after
  \<open>max_iterations\<close> rounds; it does so whenever the bound is at least 1.
\<close>

theorem hardwired_coordinator_key:
  "identity (coordinator_agent g) \<noteq> ''Coordinator''
     \<and> (\<forall>a \<in> set (group_agents g). identity a \<noteq> ''Coordinator'')
     \<and> map_of init ''Coordinator_message'' = None
   \<longrightarrow> state_get (session_after g n init) ''Coordinator_message'' '''' = ''''
      \<and> \<not> check_consensus (session_after g n init)
      \<and> (\<forall>r. run_group_chat g init = Some r
             \<longrightarrow> final r = EXHAUSTED \<and> rounds r = max_iterations g)
      \<and> (0 < max_iterations g
           \<longrightarrow> run_group_chat g init
                 = Some \<lparr>final = EXHAUSTED, rounds = max_iterations g,
                         session = session_after g (max_iterations g) init\<rparr>)"
proof (intro impI)
  assume h: "identity (coordinator_agent g) \<noteq> ''Coordinator''
     \<and> (\<forall>a \<in> set (group_agents g). identity a \<noteq> ''Coordinator'')
     \<and> map_of init ''Coordinator_message'' = None"
  have slot: "map_of (session_after g n init) ''Coordinator_message'' = None" for n
    using h coordinator_slot_untouched[of g init n] by blast
  have empty: "\<not> check_tag_presence [] ''consensus_reached''"
    by (simp add: check_tag_presence_def tag_at_def)
  have never: "\<not> check_consensus (session_after g n init)" for n
    using slot[of n] empty by (simp add: check_consensus_def state_get_def)
  have get: "state_get (session_after g n init) ''Coordinator_message'' '''' = ''''"
    using slot[of n] by (simp add: state_get_def)
  have res: "final r = EXHAUSTED \<and> rounds r = max_iterations g"
    if "run_group_chat g init = Some r" for r
  proof -
    from that have "round_controller g 0 init = Some r"
      by (simp add: run_group_chat_def)
    from round_controller_result[OF this] obtain k where
      k: "session r = rounds_from g 0 (Suc k) init"
        "final r = CONSENSUS_REACHED \<longrightarrow> check_consensus (session r)"
        "final r = EXHAUSTED \<longrightarrow> rounds r = max_iterations g"
      by blast
    from k(1) never[of "Suc k"] have "\<not> check_consensus (session r)"
      by (simp add: session_after_def)
    with k(2) have "final r = EXHAUSTED"
      by (cases "final r") auto
    with k(3) show ?thesis by simp
  qed
  have ex: "run_group_chat g init
                 = Some \<lparr>final = EXHAUSTED, rounds = max_iterations g,
                         session = session_after g (max_iterations g) init\<rparr>"
    if pos: "0 < max_iterations g"
  proof -
    from pos obtain k where k: "max_iterations g = Suc (0 + k)"
      by (cases "max_iterations g") auto
    have "\<not> check_consensus (rounds_from g 0 (Suc j) init)" for j
      using never[of "Suc j"] unfolding session_after_def .
    then have "\<forall>j\<le>k. \<not> check_consensus (rounds_from g 0 (Suc j) init)"
      by blast
    from round_controller_exhausted[OF this k] show ?thesis
      using k by (simp add: run_group_chat_def session_after_def)
  qed
  from get never[of n] res ex
  show "state_get (session_after g n init) ''Coordinator_message'' '''' = ''''
      \<and> \<not> check_consensus (session_after g n init)
      \<and> (\<forall>r. run_group_chat g init = Some r
             \<longrightarrow> final r = EXHAUSTED \<and> rounds r = max_iterations g)
      \<and> (0 < max_iterations g
           \<longrightarrow> run_group_chat g init
                 = Some \<lparr>final = EXHAUSTED, rounds = max_iterations g,
                         session = session_after g (max_iterations g) init\<rparr>)"
    by blast
qed

theorem hardwired_coordinator_key_witness:
  "state_get (session_after chat_lead 2 []) ''Coordinator_message'' '''' = ''''
   \<and> \<not> check_consensus (session_after chat_lead 2 [])
   \<and> run_group_chat chat_lead []
       = Some \<lparr>final = EXHAUSTED, rounds = 2, session = session_after chat_lead 2 []\<rparr>"
proof -
  have h: "identity (coordinator_agent chat_lead) \<noteq> ''Coordinator''
     \<and> (\<forall>a \<in> set (group_agents chat_lead). identity a \<noteq> ''Coordinator'')
     \<and> map_of ([] :: state) ''Coordinator_message'' = None"
    by (simp add: chat_lead_def lead_def alice_def bob_def)
  have m: "max_iterations chat_lead = 2"
    by (simp add: chat_lead_def)
  note t = hardwired_coordinator_key[where g = chat_lead and init = "[]" and n = 2, THEN mp, OF h]
  from t m show ?thesis
    by simp
qed

text \<open>
  The claim as worded fails: the coordinator's key is another one, but a participant with
  the identity \<open>Coordinator\<close> writes the key the check reads, and the loop ends by
  consensus in round 0.
\<close>

theorem hardwired_coordinator_key_counterexample:
  "identity (coordinator_agent chat_namesake) = ''Lead''
   \<and> output_key (coordinator_agent chat_namesake) = ''Lead_message''
   \<and> state_get (session_after chat_namesake 1 []) ''Coordinator_message'' '''' = ''<consensus_reached/>''
   \<and> run_group_chat chat_namesake []
       = Some \<lparr>final = CONSENSUS_REACHED, rounds = 1, session = session_after chat_namesake 1 []\<rparr>"
  by code_simp

section \<open>The final answer\<close>

lemma dropWhile_rev_dropWhile_rev:
  assumes "t = [] \<or> \<not> P (hd t)"
  shows "dropWhile P (rev (dropWhile P (rev t))) = rev (dropWhile P (rev t))"
proof (cases "rev (dropWhile P (rev t))")
  case Nil
  show ?thesis unfolding Nil by simp
next
  case (Cons x w)
  have "rev t = takeWhile P (rev t) @ dropWhile P (rev t)"
    by simp
  then have "rev (rev t) = rev (takeWhile P (rev t) @ dropWhile P (rev t))"
    by (rule arg_cong)
  then have "t = rev (dropWhile P (rev t)) @ rev (takeWhile P (rev t))"
    by (simp only: rev_rev_ident rev_append)
  with Cons have "t = (x # w) @ rev (takeWhile P (rev t))"
    by simp
  then have "t \<noteq> [] \<and> hd t = x"
    by (cases t) auto
  with assms have "\<not> P x"
    by auto
  then show ?thesis
    unfolding Cons by simp
qed

lemma strip_strip: "strip (strip s) = strip s"
proof -
  have c: "dropWhile isspace s = [] \<or> \<not> isspace (hd (dropWhile isspace s))"
    using hd_dropWhile[of isspace s] by blast
  show ?thesis
    unfolding strip_def rev_rev_ident dropWhile_rev_dropWhile_rev[of "dropWhile isspace s" isspace, OF c] dropWhile_idem ..
qed

lemma strip_dropWhile: "strip (dropWhile isspace s) = strip s"
  by (simp add: strip_def dropWhile_idem)

lemma split_nl_single:
  "NL \<notin> set s \<Longrightarrow> split_nl s = [s]"
  by (induction s) auto

lemma split_nl_nonempty: "split_nl s \<noteq> []"
  by (cases s) (auto split: list.splits)

lemma split_nl_length_1:
  "length (split_nl s) = 1 \<Longrightarrow> NL \<notin> set s"
proof (induction s)
  case Nil
  then show ?case by simp
next
  case (Cons c cs)
  show ?case
  proof (cases "c = NL")
    case True
    with Cons.prems have "split_nl cs = []" by simp
    then show ?thesis using split_nl_nonempty[of cs] by simp
  next
    case False
    with Cons.prems have "length (split_nl cs) = 1"
      using split_nl_nonempty[of cs] by (auto split: list.splits)
    with Cons.IH False show ?thesis by simp
  qed
qed

lemma match_lit_ci_drop:
  assumes "match_lit_ci p t = Some r"
  shows "r = drop (length p) t"
proof -
  from assms obtain u where "t = u @ r" "ci_eq u p"
    by (auto simp: match_lit_ci_Some)
  moreover from this have "length u = length p"
    by (metis ci_eq_def length_map)
  ultimately show ?thesis by simp
qed

lemma first_occurrence_iff:
  "first_occurrence p t n \<longleftrightarrow>
     (\<forall>k<n. match_lit_ci p (drop k t) = None) \<and> match_lit_ci p (drop n t) \<noteq> None"
  by (auto simp: first_occurrence_def list_all_iff)

lemma search_final_answer_first:
  "first_occurrence ''FINAL ANSWER:'' r n \<Longrightarrow>
     search_final_answer r
       = Some (takeWhile (\<lambda>x. x \<noteq> NL) (dropWhile isspace (drop (n + 13) r)))"
proof (induction n arbitrary: r)
  case 0
  then obtain rest where rest: "match_lit_ci ''FINAL ANSWER:'' r = Some rest"
    unfolding first_occurrence_iff by auto
  have len: "length ''FINAL ANSWER:'' = 13"
    by simp
  have d: "rest = drop (0 + 13) r"
    using match_lit_ci_drop[OF rest] unfolding len by simp
  from rest obtain c cs where r: "r = c # cs"
    by (cases r) auto
  have "search_final_answer (c # cs)
      = Some (takeWhile (\<lambda>x. x \<noteq> NL) (dropWhile isspace rest))"
    using rest unfolding r by (simp only: search_final_answer.simps option.case)
  then show ?case
    unfolding d r .
next
  case (Suc n)
  from Suc.prems have all: "\<forall>k<Suc n. match_lit_ci ''FINAL ANSWER:'' (drop k r) = None"
    and here: "match_lit_ci ''FINAL ANSWER:'' (drop (Suc n) r) \<noteq> None"
    unfolding first_occurrence_iff by blast+
  from all have "match_lit_ci ''FINAL ANSWER:'' (drop 0 r) = None"
    by blast
  then have none: "match_lit_ci ''FINAL ANSWER:'' r = None"
    by simp
  from all have later: "\<forall>k<n. match_lit_ci ''FINAL ANSWER:'' (drop (Suc k) r) = None"
    by auto
  from here obtain c cs where r: "r = c # cs"
    by (cases r) auto
  have "first_occurrence ''FINAL ANSWER:'' cs n"
    using later here unfolding r first_occurrence_iff by simp
  have "drop (Suc n + 13) (c # cs) = drop (n + 13) cs"
    by (simp only: add_Suc drop_Suc_Cons)
  with Suc.IH[OF \<open>first_occurrence ''FINAL ANSWER:'' cs n\<close>] have "search_final_answer cs
      = Some (takeWhile (\<lambda>x. x \<noteq> NL) (dropWhile isspace (drop (Suc n + 13) (c # cs))))"
    by (simp only:)
  moreover have "search_final_answer (c # cs) = search_final_answer cs"
    using none unfolding r by (simp only: search_final_answer.simps option.case)
  ultimately show ?case
    unfolding r by (simp only:)
qed

lemma remainder_of_line:
  assumes "\<not> list_all isspace rem" and "NL \<notin> set rem" and "tail = [] \<or> hd tail = NL"
  shows "strip (takeWhile (\<lambda>x. x \<noteq> NL) (dropWhile isspace (rem @ tail))) = strip rem"
proof -
  from assms(1) obtain x where "x \<in> set rem" "\<not> isspace x"
    by (auto simp: list_all_iff)
  then have a: "dropWhile isspace (rem @ tail) = dropWhile isspace rem @ tail"
    by (simp add: dropWhile_append1)
  have "set (dropWhile isspace rem) \<subseteq> set rem"
    by (rule set_dropWhileD[THEN subsetI])
  with assms(2) have b: "\<forall>x \<in> set (dropWhile isspace rem). x \<noteq> NL"
    by blast
  have c: "takeWhile (\<lambda>x. x \<noteq> NL) tail = []"
    using assms(3) by (cases tail) auto
  have "takeWhile (\<lambda>x. x \<noteq> NL) (dropWhile isspace rem @ tail) = dropWhile isspace rem"
    using b c by (simp add: takeWhile_append2)
  then show ?thesis
    unfolding a by (simp add: strip_dropWhile)
qed

lemma strip_nonempty:
  assumes "\<not> list_all isspace s"
  shows "strip s \<noteq> []"
proof -
  from assms have "dropWhile isspace s \<noteq> []"
    by (auto simp: list_all_iff dropWhile_eq_Nil_conv)
  then have "\<not> isspace (hd (dropWhile isspace s))"
    by (rule hd_dropWhile)
  moreover have "hd (dropWhile isspace s) \<in> set (rev (dropWhile isspace s))"
    using \<open>dropWhile isspace s \<noteq> []\<close> by simp
  ultimately have "dropWhile isspace (rev (dropWhile isspace s)) \<noteq> []"
    by (auto simp: dropWhile_eq_Nil_conv)
  then show ?thesis
    by (simp add: strip_def)
qed

text \<open>
  Claim C7, as the code has it. A missing final answer is not fatal: whenever the
  extractor returns nothing or the empty text, the result record carries the sentinel
  \<open>NO_FINAL_ANSWER_FOUND\<close>, and otherwise the extracted answer. A response that holds
  \<open>FINAL ANSWER:\<close> in any casing, at any place of a line, yields the stripped text between
  the white space behind the leftmost occurrence, line feeds included, and the next line
  feed. That is the stripped remainder of the line of that occurrence when the remainder
  is not blank.
\<close>

theorem final_answer_or_sentinel:
  "(extract_final_answer r = None \<or> extract_final_answer r = Some []
      \<longrightarrow> model_answer r = ''NO_FINAL_ANSWER_FOUND'')
   \<and> (extract_final_answer r = Some a \<and> a \<noteq> [] \<longrightarrow> model_answer r = a)
   \<and> (first_occurrence ''FINAL ANSWER:'' r n
      \<longrightarrow> extract_final_answer r
            = Some (strip (takeWhile (\<lambda>x. x \<noteq> NL) (dropWhile isspace (drop (n + 13) r)))))
   \<and> (first_occurrence ''FINAL ANSWER:'' r n \<and> drop (n + 13) r = rem @ tail
        \<and> \<not> list_all isspace rem \<and> NL \<notin> set rem \<and> (tail = [] \<or> hd tail = NL)
      \<longrightarrow> extract_final_answer r = Some (strip rem) \<and> model_answer r = strip rem)"
proof (intro conjI impI)
  assume "extract_final_answer r = None \<or> extract_final_answer r = Some []"
  then show "model_answer r = ''NO_FINAL_ANSWER_FOUND''"
    by (auto simp: model_answer_def)
next
  assume "extract_final_answer r = Some a \<and> a \<noteq> []"
  then show "model_answer r = a"
    by (simp add: model_answer_def)
next
  assume "first_occurrence ''FINAL ANSWER:'' r n"
  then show "extract_final_answer r
      = Some (strip (takeWhile (\<lambda>x. x \<noteq> NL) (dropWhile isspace (drop (n + 13) r))))"
    by (simp add: extract_final_answer_def search_final_answer_first)
next
  assume h: "first_occurrence ''FINAL ANSWER:'' r n \<and> drop (n + 13) r = rem @ tail
        \<and> \<not> list_all isspace rem \<and> NL \<notin> set rem \<and> (tail = [] \<or> hd tail = NL)"
  then have f: "first_occurrence ''FINAL ANSWER:'' r n" and d: "drop (n + 13) r = rem @ tail"
    by simp_all
  have "extract_final_answer r
      = Some (strip (takeWhile (\<lambda>x. x \<noteq> NL) (dropWhile isspace (rem @ tail))))"
    unfolding d[symmetric]
    by (simp add: extract_final_answer_def search_final_answer_first[OF f])
  with h show e: "extract_final_answer r = Some (strip rem)"
    by (simp add: remainder_of_line)
  from h have "strip rem \<noteq> []"
    by (simp add: strip_nonempty)
  with e show "model_answer r = strip rem"
    by (simp add: model_answer_def)
qed

theorem final_answer_or_sentinel_witness:
  "extract_final_answer ''Reasoning.\<newline>Final Answer:  42 \<newline>bye'' = Some ''42''
   \<and> model_answer ''Reasoning.\<newline>Final Answer:  42 \<newline>bye'' = ''42''
   \<and> model_answer ''no answer here\<newline>at all'' = ''NO_FINAL_ANSWER_FOUND''"
proof -
  have h: "first_occurrence ''FINAL ANSWER:'' ''Reasoning.\<newline>Final Answer:  42 \<newline>bye'' 11
      \<and> drop (11 + 13) ''Reasoning.\<newline>Final Answer:  42 \<newline>bye'' = ''  42 '' @ ''\<newline>bye''
      \<and> \<not> list_all isspace ''  42 '' \<and> NL \<notin> set ''  42 ''
      \<and> (''\<newline>bye'' = [] \<or> hd ''\<newline>bye'' = NL)"
    by code_simp
  have s: "strip ''  42 '' = ''42''"
    by code_simp
  have n: "extract_final_answer ''no answer here\<newline>at all'' = None
      \<or> extract_final_answer ''no answer here\<newline>at all'' = Some []"
    by code_simp
  have "extract_final_answer ''Reasoning.\<newline>Final Answer:  42 \<newline>bye'' = Some (strip ''  42 '')
      \<and> model_answer ''Reasoning.\<newline>Final Answer:  42 \<newline>bye'' = strip ''  42 ''"
    using final_answer_or_sentinel[where r = "''Reasoning.\<newline>Final Answer:  42 \<newline>bye''"
        and n = 11 and rem = "''  42 ''" and tail = "''\<newline>bye''",
        THEN conjunct2, THEN conjunct2, THEN conjunct2] h
    by (rule mp)
  moreover have "model_answer ''no answer here\<newline>at all'' = ''NO_FINAL_ANSWER_FOUND''"
    using final_answer_or_sentinel[where r = "''no answer here\<newline>at all''", THEN conjunct1] n
    by (rule mp)
  ultimately show ?thesis
    unfolding s by (intro conjI) simp_all
qed

text \<open>
  The claim as worded fails. The prefix inside an earlier line wins over a line that
  begins with it; a blank remainder makes the next line the answer; and a one-line
  response without the prefix is the answer, not the sentinel.
\<close>

theorem final_answer_or_sentinel_counterexample:
  "spec_final_answer_line ''see final answer: 1\<newline>FINAL ANSWER: 2'' = Some ''2''
   \<and> extract_final_answer ''see final answer: 1\<newline>FINAL ANSWER: 2'' = Some ''1''
   \<and> model_answer ''see final answer: 1\<newline>FINAL ANSWER: 2'' = ''1''
   \<and> spec_final_answer_line ''FINAL ANSWER:\<newline>42'' = Some ''''
   \<and> model_answer ''FINAL ANSWER:\<newline>42'' = ''42''
   \<and> spec_final_answer_line ''forty-two'' = None
   \<and> model_answer ''forty-two'' = ''forty-two''"
  by code_simp

text \<open>
  Claim C10. When the pattern finds no match, a stripped response of exactly one line is
  returned, stripped, as the answer; a response of two or more lines whose line before
  the last is not \<open>FINAL ANSWER:\<close>, stripped and in upper case, gives no answer.
\<close>

theorem single_line_fallback:
  "search_final_answer r = None \<longrightarrow>
     (length (split_nl (strip r)) = 1
        \<longrightarrow> extract_final_answer r = Some (strip (hd (split_nl (strip r))))
            \<and> hd (split_nl (strip r)) = strip r
            \<and> extract_final_answer r = Some (strip r))
     \<and> (2 \<le> length (split_nl (strip r))
          \<and> py_upper (strip (split_nl (strip r) ! (length (split_nl (strip r)) - 2)))
              \<noteq> code_points ''FINAL ANSWER:''
        \<longrightarrow> extract_final_answer r = None)"
proof (intro impI conjI)
  assume none: "search_final_answer r = None"
  {
    assume one: "length (split_nl (strip r)) = 1"
    then have "NL \<notin> set (strip r)"
      by (rule split_nl_length_1)
    then have lines: "split_nl (strip r) = [strip r]"
      by (rule split_nl_single)
    show "extract_final_answer r = Some (strip (hd (split_nl (strip r))))"
      using none one by (simp add: extract_final_answer_def Let_def)
    show "hd (split_nl (strip r)) = strip r"
      using lines by simp
    show "extract_final_answer r = Some (strip r)"
      using none lines by (simp add: extract_final_answer_def Let_def strip_strip)
  }
  {
    assume "2 \<le> length (split_nl (strip r))
          \<and> py_upper (strip (split_nl (strip r) ! (length (split_nl (strip r)) - 2)))
              \<noteq> code_points ''FINAL ANSWER:''"
    then show "extract_final_answer r = None"
      using none by (simp add: extract_final_answer_def Let_def)
  }
qed

theorem single_line_fallback_witness:
  "search_final_answer '' 42 '' = None
   \<and> extract_final_answer '' 42 '' = Some ''42''
   \<and> search_final_answer ''maybe 7\<newline>or 8'' = None
   \<and> extract_final_answer ''maybe 7\<newline>or 8'' = None"
proof -
  have a: "search_final_answer '' 42 '' = None"
    by code_simp
  have b: "length (split_nl (strip '' 42 '')) = 1"
    by code_simp
  have c: "strip '' 42 '' = ''42''"
    by code_simp
  have d: "search_final_answer ''maybe 7\<newline>or 8'' = None"
    by code_simp
  have e: "2 \<le> length (split_nl (strip ''maybe 7\<newline>or 8''))
      \<and> py_upper (strip (split_nl (strip ''maybe 7\<newline>or 8'')
            ! (length (split_nl (strip ''maybe 7\<newline>or 8'')) - 2)))
          \<noteq> code_points ''FINAL ANSWER:''"
    by code_simp
  from single_line_fallback[of "'' 42 ''"] a b have "extract_final_answer '' 42 '' = Some (strip '' 42 '')"
    by blast
  moreover from single_line_fallback[of "''maybe 7\<newline>or 8''"] d e
  have "extract_final_answer ''maybe 7\<newline>or 8'' = None"
    by blast
  ultimately show ?thesis
    using a d unfolding c by (intro conjI)
qed

section \<open>The archive tool\<close>

lemma error_dict_shape:
  "has_status (error_dict m) ''error'' \<and> has_message (error_dict m)
   \<and> map_of (error_dict m) ''extracted_files'' = Some (Items [])"
  by (simp add: error_dict_def has_status_def has_message_def)

lemma extract_into_shape:
  assumes "fst (extract_into sys w file_path p extract_dir) = Inr d"
  shows "(has_status d ''success'' \<or> has_status d ''error'') \<and> has_message d
     \<and> (has_status d ''error'' \<longrightarrow> map_of d ''extracted_files'' = Some (Items []))"
proof (cases "mkdir_parents sys w extract_dir")
  case (Pair m w1)
  show ?thesis
  proof (cases m)
    case (Some e)
    with Pair assms have "d = error_dict (''Error creating extraction directory '' @ [CHR 0x27]
                                  @ extract_dir @ [CHR 0x27] @ '': '' @ exc_text e)"
      by (auto simp: extract_into_def split: if_splits)
    then show ?thesis using error_dict_shape by simp
  next
    case None
    obtain ok err w2 where x: "extract_archive sys w1 p extract_dir = ((ok, err), w2)"
      by (metis prod.exhaust)
    show ?thesis
    proof (cases ok)
      case False
      with Pair None x assms have "d = error_dict (''Failed to extract '' @ file_path @ '': ''
                                  @ format_optional err)"
        by (simp add: extract_into_def)
      then show ?thesis using error_dict_shape by simp
    next
      case True
      with Pair None x assms show ?thesis
        by (auto simp: extract_into_def Let_def has_status_def has_message_def)
    qed
  qed
qed

lemma unzip_file_shape:
  assumes "fst (unzip_file sys w file_path) = Inr d"
  shows "(has_status d ''success'' \<or> has_status d ''error'') \<and> has_message d
     \<and> (has_status d ''error'' \<longrightarrow> map_of d ''extracted_files'' = Some (Items []))"
proof -
  from assms consider
    (err) m where "d = error_dict m"
    | (already) x fs m where "d = [(''status'', Text ''success''), (''extract_dir'', Text x),
          (''extracted_files'', Items fs), (''message'', Text m)]"
    | (unpack) p x where "fst (extract_into sys w file_path p x) = Inr d"
    unfolding unzip_file_def
    by (auto split: option.splits if_splits sum.splits bool.splits)
  then show ?thesis
  proof cases
    case err
    then show ?thesis using error_dict_shape by simp
  next
    case already
    then show ?thesis by (simp add: has_status_def has_message_def)
  next
    case unpack
    then show ?thesis by (rule extract_into_shape)
  qed
qed

lemma extract_into_raises:
  assumes "fst (extract_into sys w file_path p extract_dir) = Inl e"
  shows "fst (mkdir_parents sys w extract_dir) = Some e \<and> \<not> is_os_error e"
proof (cases "mkdir_parents sys w extract_dir")
  case (Pair m w1)
  obtain ok err w2 where x: "extract_archive sys w1 p extract_dir = ((ok, err), w2)"
    by (metis prod.exhaust)
  from Pair x assms show ?thesis
    by (cases m; cases ok) (auto simp: extract_into_def Let_def split: if_splits)
qed

lemma unzip_file_raises_only:
  assumes "fst (unzip_file sys w file_path) = Inl e"
  shows "(\<exists>p. resolve sys w p = Inl e \<or> path_exists sys w p = Inl e \<or> is_file sys w p = Inl e
            \<or> is_dir sys w p = Inl e \<or> any_iterdir sys w p = Inl e)
     \<or> (\<exists>p. fst (mkdir_parents sys w p) = Some e \<and> \<not> is_os_error e)"
proof -
  from assms consider
    (query) p where "resolve sys w p = Inl e \<or> path_exists sys w p = Inl e \<or> is_file sys w p = Inl e"
    | (dir) b x where "extraction_directory sys w b x = Inl e"
    | (check) x where "already_extracted sys w x = Inl e"
    | (unpack) p x where "fst (extract_into sys w file_path p x) = Inl e"
    unfolding unzip_file_def
    by (auto split: option.splits if_splits sum.splits bool.splits)
  then show ?thesis
  proof cases
    case query
    then show ?thesis by blast
  next
    case dir
    then have "\<exists>p. resolve sys w p = Inl e"
      by (auto simp: extraction_directory_def Let_def split: sum.splits)
    then show ?thesis by blast
  next
    case check
    then have "\<exists>p. path_exists sys w p = Inl e \<or> is_dir sys w p = Inl e \<or> any_iterdir sys w p = Inl e"
      by (auto simp: already_extracted_def split: sum.splits bool.splits)
    then show ?thesis by blast
  next
    case unpack
    from extract_into_raises[OF unpack] show ?thesis by blast
  qed
qed

text \<open>
  Claim C8. Whenever \<open>unzip_file\<close> returns, the dictionary has the status \<open>success\<close> or
  \<open>error\<close> and a message, and on \<open>error\<close> the list of extracted files is empty
  (\<open>unzip_file_shape\<close>). It does not always return: the path queries before the first
  \<open>try\<close> are unguarded, and so is a failure of \<open>mkdir\<close> that is no \<open>OSError\<close>
  (\<open>unzip_file_raises_only\<close>). In the world below the extraction directory exists and
  may not be listed; \<open>any(extract_dir.iterdir())\<close> raises, and the exception reaches the
  caller.
\<close>

theorem unzip_file_raises:
  "fst (unzip_file locked_dir_os False ''/in/a.zip'')
     = Inl (OSError ''[Errno 13] Permission denied: /out/a'')
   \<and> fst (unzip_file plain_os False ''/in/a.zip'')
     = Inr [(''status'', Text ''success''), (''extract_dir'', Text ''/out/a''),
            (''extracted_files'',
               Items [\<lparr>fi_path = ''/out/a/x.txt'', fi_type = ''file'', fi_size = 5\<rparr>]),
            (''message'', Text ''Successfully extracted /in/a.zip to /out/a. Found 1 items.'')]"
  by code_simp

end
